theory Spec2Isabelle
  imports Main
begin

section \<open>dependencyDiscoverer: a shallow embedding of \<^verbatim>\<open>src/dependencyDiscoverer.cpp\<close>\<close>

text \<open>
  File names, directory prefixes, lines and file contents are byte strings (\<open>string\<close>).
  A C string ends at its first NUL byte; \<open>c_str\<close> cuts a buffer there.
\<close>

abbreviation NUL :: char where "NUL \<equiv> CHR 0x00"
abbreviation NL :: char where "NL \<equiv> CHR 0x0A"
abbreviation DQUOTE :: char where "DQUOTE \<equiv> CHR 0x22"

definition c_str :: "string \<Rightarrow> string" where
  "c_str s = takeWhile (\<lambda>c. c \<noteq> NUL) s"

text \<open>\<^verbatim>\<open>isspace\<close> of \<^verbatim>\<open>ctype.h\<close> in the C locale: space, tab, line feed, vertical tab,
  form feed and carriage return.\<close>

definition isspace :: "char \<Rightarrow> bool" where
  "isspace c = (c = CHR 0x20 \<or> c = CHR 0x09 \<or> c = CHR 0x0A \<or> c = CHR 0x0B
                \<or> c = CHR 0x0C \<or> c = CHR 0x0D)"

subsection \<open>The scanner of one line (the body of the \<^verbatim>\<open>fgets\<close> loop of \<^verbatim>\<open>process\<close>)\<close>

text \<open>
  \<open>scan_line buf\<close> is the name collected from the buffer \<open>buf\<close> that \<^verbatim>\<open>fgets\<close> filled, or
  \<open>None\<close> where the loop body runs into one of its two \<^verbatim>\<open>continue\<close> statements before the
  name is collected.  Reading \<^verbatim>\<open>*p\<close> at the end of the C string yields NUL, which is neither
  white space nor a double quote.
\<close>

definition scan_line :: "string \<Rightarrow> string option" where
  "scan_line buf =
     (let p = dropWhile isspace (c_str buf) in
      if take 8 p \<noteq> ''#include'' then None
      else let p = dropWhile isspace (drop 8 p) in
        (case p of
           [] \<Rightarrow> None
         | c # p \<Rightarrow> if c \<noteq> DQUOTE then None
                    else Some (takeWhile (\<lambda>c. c \<noteq> DQUOTE) p)))"

subsection \<open>Reading a file line by line\<close>

text \<open>
  \<^verbatim>\<open>fgets(buf, n + 1, fd)\<close> stores at most \<open>n\<close> bytes and stops after a line feed.
  \<open>fgets n s\<close> is the pair of the buffer read and the unread rest of the content \<open>s\<close>.
\<close>

fun fgets :: "nat \<Rightarrow> string \<Rightarrow> string \<times> string" where
  "fgets n [] = ([], [])"
| "fgets n (c # cs) =
     (if n = 0 then ([], c # cs)
      else if c = NL then ([c], cs)
      else (case fgets (n - 1) cs of (l, r) \<Rightarrow> (c # l, r)))"

lemma fgets_rest_length: "fgets n s = (l, r) \<Longrightarrow> length r \<le> length s"
proof (induction s arbitrary: n l r)
  case Nil
  then show ?case by simp
next
  case (Cons c cs)
  show ?case
  proof (cases "n = 0 \<or> c = NL")
    case True
    with Cons.prems show ?thesis by (auto split: if_splits)
  next
    case False
    obtain l' r' where f: "fgets (n - 1) cs = (l', r')"
      by (cases "fgets (n - 1) cs")
    with False Cons.prems have "r = r'" by simp
    moreover have "length r' \<le> length cs"
      using f by (rule Cons.IH)
    ultimately show ?thesis by simp
  qed
qed

lemma fgets_rest_shorter:
  assumes "0 < n" and "fgets n (c # cs) = (l, r)"
  shows "length r \<le> length cs"
proof (cases "c = NL")
  case True
  with assms show ?thesis by simp
next
  case False
  obtain l' r' where f: "fgets (n - 1) cs = (l', r')"
    by (cases "fgets (n - 1) cs")
  with False assms have "r = r'" by simp
  with f show ?thesis by (simp add: fgets_rest_length)
qed

text \<open>
  The buffers that the loop \<^verbatim>\<open>while (fgets(buf, sizeof(buf), fd) != NULL)\<close> sees, for
  \<^verbatim>\<open>char buf[4096]\<close>: \<^verbatim>\<open>fgets\<close> returns \<^verbatim>\<open>NULL\<close> once nothing is left to read.
\<close>

function fgets_lines :: "string \<Rightarrow> string list" where
  "fgets_lines [] = []"
| "fgets_lines (c # cs) = (case fgets 4095 (c # cs) of (buf, rest) \<Rightarrow> buf # fgets_lines rest)"
  by pat_completeness auto
termination
proof (relation "measure length")
  show "wf (measure length)" by simp
next
  fix c :: char and cs :: string and x :: "string \<times> string" and buf rest :: string
  assume "(buf, rest) = fgets 4095 (c # cs)"
  then have "fgets 4095 (c # cs) = (buf, rest)" by simp
  then have "length rest \<le> length cs"
    by (rule fgets_rest_shorter [rotated]) simp
  then show "(rest, c # cs) \<in> measure length" by simp
qed

subsection \<open>The search path\<close>

text \<open>
  The file system is what \<^verbatim>\<open>fopen(path, "r")\<close> answers: the content of the file at
  \<open>path\<close>, or \<open>None\<close> where the call returns \<^verbatim>\<open>NULL\<close>.
\<close>

type_synonym filesystem = "string \<Rightarrow> string option"

text \<open>\<^verbatim>\<open>openFile\<close>: the first \<open>dirs[i] + file\<close> that opens, in the order of \<open>dirs\<close>.\<close>

fun openFile :: "filesystem \<Rightarrow> string list \<Rightarrow> string \<Rightarrow> string option" where
  "openFile fs [] file = None"
| "openFile fs (d # dirs) file =
     (case fs (d @ file) of
        Some content \<Rightarrow> Some content
      | None \<Rightarrow> openFile fs dirs file)"

subsection \<open>The table and the work queue\<close>

text \<open>
  \<^verbatim>\<open>theTable\<close> is a \<^verbatim>\<open>std::unordered_map\<close> from names to lists of names, \<^verbatim>\<open>workQ\<close> a
  \<^verbatim>\<open>std::list\<close> used as a queue.  \<^verbatim>\<open>MapSafe::insert\<close> is \<^verbatim>\<open>unordered_map::insert\<close>, which
  leaves the map as it is when the key is present; \<^verbatim>\<open>MapSafe::getValue\<close> is
  \<^verbatim>\<open>&map[key]\<close>, which creates an empty entry for an absent key.
\<close>

type_synonym table = "string \<rightharpoonup> string list"

record globals =
  theTable :: table
  workQ :: "string list"

definition insert_map :: "string \<Rightarrow> string list \<Rightarrow> table \<Rightarrow> table" where
  "insert_map k v t = (case t k of None \<Rightarrow> t(k \<mapsto> v) | Some _ \<Rightarrow> t)"

definition getValue :: "table \<Rightarrow> string \<Rightarrow> string list \<times> table" where
  "getValue t k = (case t k of None \<Rightarrow> ([], t(k \<mapsto> [])) | Some l \<Rightarrow> (l, t))"

subsection \<open>\<^verbatim>\<open>process\<close>\<close>

text \<open>
  The pointer \<^verbatim>\<open>ll\<close> that \<^verbatim>\<open>process(file, ll)\<close> receives is \<^verbatim>\<open>theTable.getValue(file)\<close>, the
  address of the list stored under \<open>file\<close> (an \<^verbatim>\<open>unordered_map\<close> never moves its elements),
  so \<^verbatim>\<open>ll->push_back(name)\<close> appends to the entry of \<open>file\<close>.
  \<open>record_include\<close> is the block between \<^verbatim>\<open>bs.wait()\<close> and \<^verbatim>\<open>bs.signal()\<close>.
\<close>

definition push_back_entry :: "string \<Rightarrow> string \<Rightarrow> table \<Rightarrow> table" where
  "push_back_entry file name t = t(file \<mapsto> fst (getValue t file) @ [name])"

definition record_include ::
  "string \<Rightarrow> string \<Rightarrow> 'a globals_scheme \<Rightarrow> 'a globals_scheme" where
  "record_include file name g =
     (let t = push_back_entry file name (theTable g) in
      if t name \<noteq> None then g\<lparr>theTable := t\<rparr>
      else g\<lparr>theTable := insert_map name [] t, workQ := workQ g @ [name]\<rparr>)"

definition process_line ::
  "string \<Rightarrow> string \<Rightarrow> 'a globals_scheme \<Rightarrow> 'a globals_scheme" where
  "process_line file buf g =
     (case scan_line buf of None \<Rightarrow> g | Some name \<Rightarrow> record_include file name g)"

text \<open>
  How the program ends: \<open>Exit status out err\<close> is a return from \<^verbatim>\<open>main\<close> or a call of
  \<^verbatim>\<open>exit\<close> with what was written to standard output and standard error; \<open>Terminate e\<close>
  is \<^verbatim>\<open>std::terminate\<close> after the uncaught exception \<open>e\<close>; \<open>Undefined\<close> is undefined behaviour.
\<close>

datatype exn = Invalid_argument | Out_of_range

datatype outcome = Exit int string string | Terminate exn | Undefined

definition process ::
  "filesystem \<Rightarrow> string list \<Rightarrow> string \<Rightarrow> 'a globals_scheme \<Rightarrow> outcome + 'a globals_scheme" where
  "process fs dirs file g =
     (case openFile fs dirs file of
        None \<Rightarrow> Inl (Exit (- 1) [] (''Error opening '' @ file @ [NL]))
      | Some content \<Rightarrow> Inr (foldl (\<lambda>g buf. process_line file buf g) g (fgets_lines content)))"

subsection \<open>\<^verbatim>\<open>printDependencies\<close>\<close>

text \<open>
  The state of the traversal is the set \<^verbatim>\<open>printed\<close>, the list \<^verbatim>\<open>toProcess\<close> and what was
  written to \<^verbatim>\<open>fd\<close>, kept as the list of the names printed, one per \<^verbatim>\<open>fprintf\<close>.
  \<open>print_entry\<close> is the \<^verbatim>\<open>for\<close> loop over one dependency list.
\<close>

type_synonym closure = "string set \<times> string list \<times> string list"

fun print_entry :: "string list \<Rightarrow> closure \<Rightarrow> closure" where
  "print_entry [] st = st"
| "print_entry (x # ll) (printed, toProcess, out) =
     (if x \<in> printed then print_entry ll (printed, toProcess, out)
      else print_entry ll (insert x printed, toProcess @ [x], out @ [x]))"

text \<open>
  What one pass of the \<^verbatim>\<open>for\<close> loop prints, seen from outside the loop: the names of the list
  that are not in \<^verbatim>\<open>printed\<close>, each once, in the order of the list (lemma \<open>print_entry_fresh\<close>
  below).
\<close>

fun fresh :: "string set \<Rightarrow> string list \<Rightarrow> string list" where
  "fresh P [] = []"
| "fresh P (x # ll) = (if x \<in> P then fresh P ll else x # fresh (insert x P) ll)"

text \<open>
  The \<^verbatim>\<open>while\<close> loop.  It may run forever as far as its definition knows, so it returns an
  option.  \<^verbatim>\<open>getValue\<close> may add an entry to the table, which is part of the result.  The guard
  on null pointers is not modelled: \<^verbatim>\<open>main\<close> passes the addresses of two locals and
  \<^verbatim>\<open>stdout\<close>.
\<close>

partial_function (option) printDependencies ::
  "table \<Rightarrow> string set \<Rightarrow> string list \<Rightarrow> string list \<Rightarrow> (table \<times> closure) option" where
  "printDependencies t printed toProcess out =
     (case toProcess of
        [] \<Rightarrow> Some (t, printed, toProcess, out)
      | name # rest \<Rightarrow>
          (case getValue t name of
             (ll, t') \<Rightarrow>
               (case print_entry ll (printed, rest, out) of
                  (printed', toProcess', out') \<Rightarrow> printDependencies t' printed' toProcess' out')))"

text \<open>
  One pass of the loop of step 5 of \<^verbatim>\<open>main\<close> starts the traversal from the object name, with
  the object name in \<^verbatim>\<open>printed\<close>.  \<open>flatten t root\<close> is the list of the names it prints after
  \<open>root:\<close>.
\<close>

definition flatten :: "table \<Rightarrow> string \<Rightarrow> string list option" where
  "flatten t root = map_option (\<lambda>(t', printed, toProcess, out). out)
     (printDependencies t {root} [root] [])"

text \<open>
  The dependency relation of a table: \<open>(a, b)\<close> where \<open>b\<close> is in the list stored under \<open>a\<close>.
  \<open>depth E r v\<close> is the length of a shortest path from \<open>r\<close> to \<open>v\<close> in \<open>E\<close>.
\<close>

definition deps :: "table \<Rightarrow> (string \<times> string) set" where
  "deps t = {(a, b). \<exists>l. t a = Some l \<and> b \<in> set l}"

definition depth :: "(string \<times> string) set \<Rightarrow> string \<Rightarrow> string \<Rightarrow> nat" where
  "depth E r v = (LEAST k. (r, v) \<in> E ^^ k)"

subsection \<open>The start of \<^verbatim>\<open>main\<close>: environment, search path, file arguments\<close>

text \<open>
  \<^verbatim>\<open>std::stoi\<close> (base 10): white space is skipped, then an optional sign and the longest run
  of decimal digits are read; what follows is ignored.  No digit: \<^verbatim>\<open>std::invalid_argument\<close>;
  a value that does not fit \<^verbatim>\<open>int\<close> (32 bits): \<^verbatim>\<open>std::out_of_range\<close>.
\<close>

definition isdigit :: "char \<Rightarrow> bool" where
  "isdigit c = (48 \<le> (of_char c :: nat) \<and> (of_char c :: nat) \<le> 57)"

definition decimal :: "string \<Rightarrow> int" where
  "decimal ds = foldl (\<lambda>a c. 10 * a + (int (of_char c) - 48)) 0 ds"

definition stoi :: "string \<Rightarrow> exn + int" where
  "stoi str =
     (let s = dropWhile isspace str;
          neg = (take 1 s = ''-'');
          s = (if take 1 s = ''-'' \<or> take 1 s = ''+'' then drop 1 s else s);
          ds = takeWhile isdigit s
      in if ds = [] then Inl Invalid_argument
         else let v = (if neg then - decimal ds else decimal ds)
              in if v < - 2147483648 \<or> 2147483647 < v then Inl Out_of_range else Inr v)"

text \<open>The value of \<^verbatim>\<open>number_of_threads\<close>, from what \<^verbatim>\<open>getenv("CRAWLER_THREADS")\<close> returns.\<close>

definition number_of_threads :: "string option \<Rightarrow> exn + int" where
  "number_of_threads crawlerthreads =
     (case crawlerthreads of None \<Rightarrow> Inr 2 | Some str \<Rightarrow> stoi str)"

text \<open>\<^verbatim>\<open>dirName\<close>: \<^verbatim>\<open>s.back()\<close> of an empty string is undefined behaviour, the value \<open>None\<close>.\<close>

definition dirName :: "string \<Rightarrow> string option" where
  "dirName s = (if s = [] then None else Some (if last s \<noteq> CHR ''/'' then s @ ''/'' else s))"

text \<open>
  \<^verbatim>\<open>parseFile\<close>: root and extension around the last dot (\<^verbatim>\<open>rfind\<close>), the whole name and the
  empty extension where there is no dot.
\<close>

definition parseFile :: "string \<Rightarrow> string \<times> string" where
  "parseFile file =
     (if CHR ''.'' \<notin> set file then (file, [])
      else (let ext = rev (takeWhile (\<lambda>c. c \<noteq> CHR ''.'') (rev file))
            in (take (length file - Suc (length ext)) file, ext)))"

text \<open>
  The fields of \<^verbatim>\<open>CPATH\<close>: the loop over \<^verbatim>\<open>str.find(":", last)\<close> and the final
  \<^verbatim>\<open>str.substr(last)\<close>; \<open>field\<close> is the part of the current field read so far.
\<close>

fun cpath_fields :: "string \<Rightarrow> string \<Rightarrow> string list" where
  "cpath_fields field [] = [field]"
| "cpath_fields field (c # cs) =
     (if c = CHR '':'' then field # cpath_fields [] cs else cpath_fields (field @ [c]) cs)"

definition is_I_flag :: "string \<Rightarrow> bool" where
  "is_I_flag arg = (take 2 arg = ''-I'')"

text \<open>
  Step 2 of \<^verbatim>\<open>main\<close>: the vector \<^verbatim>\<open>dirs\<close>, from the leading \<^verbatim>\<open>-I\<close> arguments and what
  \<^verbatim>\<open>getenv("CPATH")\<close> returns.  \<^verbatim>\<open>dirName("./")\<close> is \<^verbatim>\<open>"./"\<close>.  The fields of \<^verbatim>\<open>CPATH\<close> are
  pushed as they are, without \<^verbatim>\<open>dirName\<close>.
\<close>

definition assemble_dirs :: "string list \<Rightarrow> string option \<Rightarrow> string list option" where
  "assemble_dirs flags cpath =
     (case those (map (\<lambda>arg. dirName (drop 2 arg)) flags) of
        None \<Rightarrow> None
      | Some ds \<Rightarrow>
          Some (''./'' # ds @ (case cpath of None \<Rightarrow> [] | Some str \<Rightarrow> cpath_fields [] str)))"

text \<open>Step 3 of \<^verbatim>\<open>main\<close>: the loop over the file arguments.\<close>

definition object_name :: "string \<Rightarrow> string" where
  "object_name arg = fst (parseFile arg) @ ''.o''"

definition illegal_extension :: "string \<Rightarrow> bool" where
  "illegal_extension ext = (ext \<noteq> ''c'' \<and> ext \<noteq> ''y'' \<and> ext \<noteq> ''l'')"

fun seed :: "string list \<Rightarrow> globals \<Rightarrow> outcome + globals" where
  "seed [] g = Inr g"
| "seed (arg # args) g =
     (if illegal_extension (snd (parseFile arg))
      then Inl (Exit (- 1) []
             (''Illegal extension: '' @ snd (parseFile arg) @ '' - must be .c, .y or .l'' @ [NL]))
      else seed args
             (g\<lparr>theTable := insert_map arg [] (insert_map (object_name arg) [arg] (theTable g)),
                workQ := workQ g @ [arg]\<rparr>))"

text \<open>
  \<^verbatim>\<open>main\<close> up to the start of the threads.  \<open>args\<close> is \<^verbatim>\<open>argv[1]\<close> ... \<^verbatim>\<open>argv[argc - 1]\<close>.
  The result is the way the program ends before it starts a thread, or the number of threads,
  \<^verbatim>\<open>dirs\<close>, the file arguments and the seeded table and queue.
\<close>

definition startup ::
  "string option \<Rightarrow> string option \<Rightarrow> string list
     \<Rightarrow> outcome + (int \<times> string list \<times> string list \<times> globals)" where
  "startup cpath crawlerthreads args =
     (case number_of_threads crawlerthreads of
        Inl e \<Rightarrow> Inl (Terminate e)
      | Inr n \<Rightarrow>
          (case assemble_dirs (takeWhile is_I_flag args) cpath of
             None \<Rightarrow> Inl Undefined
           | Some dirs \<Rightarrow>
               (case seed (dropWhile is_I_flag args) \<lparr>theTable = Map.empty, workQ = []\<rparr> of
                  Inl out \<Rightarrow> Inl out
                | Inr g \<Rightarrow> Inr (n, dirs, dropWhile is_I_flag args, g))))"

subsection \<open>Step 4 of \<^verbatim>\<open>main\<close>: the worker threads\<close>

text \<open>
  The threads run interleaved.  A step of a thread is one operation on the shared state: an
  operation of a semaphore, of the queue or of the table, the opening of a file, the reading and
  scanning of a line, or the block of \<^verbatim>\<open>process\<close> that runs while \<^verbatim>\<open>bs\<close> is held, which is taken
  as one step.  The place of a thread in its code:

  \<^item> \<open>AtWait\<close>: at \<^verbatim>\<open>thread->wait()\<close>, the head of the loop of the thread;
  \<^item> \<open>AtSize\<close>: at the test \<^verbatim>\<open>workQ.size() > 0\<close>;
  \<^item> \<open>AtPop\<close>: at \<^verbatim>\<open>workQ.pop_front()\<close>;
  \<^item> \<open>AtSignal f\<close>: at \<^verbatim>\<open>thread->signal()\<close> with \<open>f\<close> popped;
  \<^item> \<open>AtGetValue f\<close>: at \<^verbatim>\<open>theTable.getValue(filename)\<close>;
  \<^item> \<open>AtOpen f\<close>: at \<^verbatim>\<open>openFile(file)\<close> in \<^verbatim>\<open>process\<close>;
  \<^item> \<open>AtFgets f rest\<close>: at \<^verbatim>\<open>fgets\<close>, with \<open>rest\<close> of the file unread;
  \<^item> \<open>AtBsWait f name rest\<close>: at \<^verbatim>\<open>bs.wait()\<close> with \<open>name\<close> collected;
  \<^item> \<open>AtRecord f name rest\<close>: at \<^verbatim>\<open>ll->push_back\<close>, holding \<^verbatim>\<open>bs\<close>;
  \<^item> \<open>AtBsSignal f rest\<close>: at \<^verbatim>\<open>bs.signal()\<close>;
  \<^item> \<open>AtRetire\<close>: at \<^verbatim>\<open>thread->signal()\<close> of the branch that leaves the loop;
  \<^item> \<open>AtDone\<close>: at \<^verbatim>\<open>tracker->signal_done()\<close>;
  \<^item> \<open>Finished\<close>: the thread has returned.
\<close>

datatype pc =
    AtWait
  | AtSize
  | AtPop
  | AtSignal string
  | AtGetValue string
  | AtOpen string
  | AtFgets string string
  | AtBsWait string string string
  | AtRecord string string string
  | AtBsSignal string string
  | AtRetire
  | AtDone
  | Finished

record crawl = globals +
  threadlock :: int
  bs :: int
  t_count :: int
  workers :: "pc list"
  halted :: "outcome option"

text \<open>
  \<^verbatim>\<open>BinarySemaphore::wait\<close> returns once \<^verbatim>\<open>val > 0\<close> and decrements; \<^verbatim>\<open>signal\<close> returns once
  \<^verbatim>\<open>val <= 0\<close> and increments.  \<open>None\<close>: the caller is blocked.
\<close>

definition sem_wait :: "int \<Rightarrow> int option" where
  "sem_wait val = (if val \<le> 0 then None else Some (val - 1))"

definition sem_signal :: "int \<Rightarrow> int option" where
  "sem_signal val = (if val > 0 then None else Some (val + 1))"

definition goto :: "nat \<Rightarrow> pc \<Rightarrow> crawl \<Rightarrow> crawl" where
  "goto i p s = s\<lparr>workers := (workers s)[i := p]\<rparr>"

text \<open>
  A step of thread \<open>i\<close>; \<open>None\<close> where the thread cannot move (it is blocked, it has returned,
  there is no such thread, or the steps of the threads have come to their end).  \<^verbatim>\<open>pop_front\<close> on
  an empty queue returns \<^verbatim>\<open>NULL\<close> as a \<^verbatim>\<open>std::string\<close>, which is undefined behaviour.

  A thread whose \<^verbatim>\<open>openFile\<close> fails writes its line to standard error and calls \<^verbatim>\<open>exit(-1)\<close>,
  from which it does not return.  \<open>halted\<close> records the call, with the status and the line, and
  the steps end there; the thread stays at \<open>AtOpen\<close>.  \<^verbatim>\<open>exit\<close> is not the end of the program in
  one step, though: it is called by a thread, not by \<^verbatim>\<open>main\<close>, and it destroys \<^verbatim>\<open>dirs\<close>,
  \<^verbatim>\<open>theTable\<close>, \<^verbatim>\<open>workQ\<close> and \<^verbatim>\<open>bs\<close>, the objects of static storage duration, while the other
  threads run on.  What the program ends as, after the call, is the matter of \<open>main_run\<close> below.
\<close>

definition worker_step :: "filesystem \<Rightarrow> string list \<Rightarrow> nat \<Rightarrow> crawl \<Rightarrow> crawl option" where
  "worker_step fs dirs i s =
     (if halted s \<noteq> None \<or> \<not> i < length (workers s) then None
      else case workers s ! i of
        AtWait \<Rightarrow>
          (case sem_wait (threadlock s) of None \<Rightarrow> None
           | Some v \<Rightarrow> Some (goto i AtSize (s\<lparr>threadlock := v\<rparr>)))
      | AtSize \<Rightarrow>
          Some (goto i (if length (workQ s) > 0 then AtPop else AtRetire) s)
      | AtPop \<Rightarrow>
          (case workQ s of
             [] \<Rightarrow> Some (s\<lparr>halted := Some Undefined\<rparr>)
           | f # q \<Rightarrow> Some (goto i (AtSignal f) (s\<lparr>workQ := q\<rparr>)))
      | AtSignal f \<Rightarrow>
          (case sem_signal (threadlock s) of None \<Rightarrow> None
           | Some v \<Rightarrow> Some (goto i (AtGetValue f) (s\<lparr>threadlock := v\<rparr>)))
      | AtGetValue f \<Rightarrow>
          Some (goto i (AtOpen f) (s\<lparr>theTable := snd (getValue (theTable s) f)\<rparr>))
      | AtOpen f \<Rightarrow>
          (case openFile fs dirs f of
             None \<Rightarrow> Some (s\<lparr>halted := Some (Exit (- 1) [] (''Error opening '' @ f @ [NL]))\<rparr>)
           | Some content \<Rightarrow> Some (goto i (AtFgets f content) s))
      | AtFgets f content \<Rightarrow>
          (if content = [] then Some (goto i AtWait s)
           else case fgets 4095 content of
             (buf, rest) \<Rightarrow>
               (case scan_line buf of
                  None \<Rightarrow> Some (goto i (AtFgets f rest) s)
                | Some name \<Rightarrow> Some (goto i (AtBsWait f name rest) s)))
      | AtBsWait f name rest \<Rightarrow>
          (case sem_wait (bs s) of None \<Rightarrow> None
           | Some v \<Rightarrow> Some (goto i (AtRecord f name rest) (s\<lparr>bs := v\<rparr>)))
      | AtRecord f name rest \<Rightarrow>
          Some (goto i (AtBsSignal f rest) (record_include f name s))
      | AtBsSignal f rest \<Rightarrow>
          (case sem_signal (bs s) of None \<Rightarrow> None
           | Some v \<Rightarrow> Some (goto i (AtFgets f rest) (s\<lparr>bs := v\<rparr>)))
      | AtRetire \<Rightarrow>
          (case sem_signal (threadlock s) of None \<Rightarrow> None
           | Some v \<Rightarrow> Some (goto i AtDone (s\<lparr>threadlock := v\<rparr>)))
      | AtDone \<Rightarrow> Some (goto i Finished (s\<lparr>t_count := t_count s - 1\<rparr>))
      | Finished \<Rightarrow> None)"

text \<open>
  The state in which the threads start: both semaphores at 1, the tracker at
  \<^verbatim>\<open>number_of_threads\<close>, one thread for each \<open>i\<close> with \<^verbatim>\<open>0 <= i < number_of_threads\<close>.
\<close>

definition start_crawl :: "int \<Rightarrow> globals \<Rightarrow> crawl" where
  "start_crawl n g =
     \<lparr>theTable = theTable g, workQ = workQ g, threadlock = 1, bs = 1, t_count = n,
      workers = replicate (nat n) AtWait, halted = None\<rparr>"

text \<open>The states that some interleaving of the threads reaches from \<open>s\<close>.\<close>

inductive crawl_steps :: "filesystem \<Rightarrow> string list \<Rightarrow> crawl \<Rightarrow> crawl \<Rightarrow> bool"
  for fs :: filesystem and dirs :: "string list" and s :: crawl where
  start: "crawl_steps fs dirs s s"
| step: "crawl_steps fs dirs s s' \<Longrightarrow> worker_step fs dirs i s' = Some s'' \<Longrightarrow> crawl_steps fs dirs s s''"

subsection \<open>Step 5 of \<^verbatim>\<open>main\<close>: one line for each file argument\<close>

definition print_line :: "string \<Rightarrow> string list \<Rightarrow> string" where
  "print_line obj out = obj @ '':'' @ concat (map (\<lambda>name. '' '' @ name) out) @ [NL]"

fun print_targets :: "table \<Rightarrow> string list \<Rightarrow> (string \<times> string list) list option" where
  "print_targets t [] = Some []"
| "print_targets t (arg # args) =
     (case printDependencies t {object_name arg} [object_name arg] [] of
        None \<Rightarrow> None
      | Some (t', printed, toProcess, out) \<Rightarrow>
          (case print_targets t' args of
             None \<Rightarrow> None
           | Some ls \<Rightarrow> Some ((object_name arg, out) # ls)))"

definition render :: "(string \<times> string list) list \<Rightarrow> string" where
  "render ls = concat (map (\<lambda>(obj, out). print_line obj out) ls)"

subsection \<open>\<^verbatim>\<open>main\<close>\<close>

text \<open>
  A thread is in its loop until it has seen the queue empty and is on its way out
  (\<open>AtRetire\<close>, \<open>AtDone\<close>, \<open>Finished\<close>, where it uses only \<^verbatim>\<open>threadlock\<close> and \<^verbatim>\<open>tracker\<close>, which
  are locals of \<^verbatim>\<open>main\<close>).  A thread in its loop goes on to use \<^verbatim>\<open>workQ\<close>, \<^verbatim>\<open>theTable\<close>, \<^verbatim>\<open>dirs\<close>
  or \<^verbatim>\<open>bs\<close>.
\<close>

definition in_loop :: "pc \<Rightarrow> bool" where
  "in_loop p \<longleftrightarrow> p \<noteq> AtRetire \<and> p \<noteq> AtDone \<and> p \<noteq> Finished"

text \<open>
  \<open>main_run fs cpath crawlerthreads args out\<close>: the program, started in the file system \<open>fs\<close>
  with the two environment variables and the arguments, can end as \<open>out\<close>.

  \<^item> \<open>early\<close>: it ends before it starts a thread.
  \<^item> \<open>halt\<close>: a thread has called \<^verbatim>\<open>exit(-1)\<close>, or has run into the undefined behaviour of
    \<^verbatim>\<open>pop_front\<close>, and the program ends as that says.
  \<^item> \<open>race\<close>: a thread has called \<^verbatim>\<open>exit(-1)\<close> while another thread is in its loop.  The other
    thread runs on while \<^verbatim>\<open>exit\<close> destroys \<^verbatim>\<open>dirs\<close>, \<^verbatim>\<open>theTable\<close>, \<^verbatim>\<open>workQ\<close> and \<^verbatim>\<open>bs\<close>, and its
    next use of one of them is undefined behaviour; the program may end in it (killed by a
    signal, for one) before \<^verbatim>\<open>exit\<close> has ended it.  The thread in \<^verbatim>\<open>exit\<close> is itself in its
    loop, at \<open>AtOpen\<close>, so the case is that of two threads in their loops.
  \<^item> \<open>finish\<close>: \<^verbatim>\<open>main\<close> prints once \<^verbatim>\<open>wait_done\<close> and the joins have returned, which is when
    every thread has returned.  A thread in \<^verbatim>\<open>exit\<close> never calls \<^verbatim>\<open>signal_done\<close>, so \<^verbatim>\<open>main\<close> does
    not get there after a call of \<^verbatim>\<open>exit\<close>.
\<close>

inductive main_run ::
  "filesystem \<Rightarrow> string option \<Rightarrow> string option \<Rightarrow> string list \<Rightarrow> outcome \<Rightarrow> bool"
  for fs :: filesystem and cpath crawlerthreads :: "string option" and args :: "string list" where
  early: "startup cpath crawlerthreads args = Inl out \<Longrightarrow> main_run fs cpath crawlerthreads args out"
| halt: "startup cpath crawlerthreads args = Inr (n, dirs, files, g) \<Longrightarrow>
         crawl_steps fs dirs (start_crawl n g) s \<Longrightarrow> halted s = Some out \<Longrightarrow>
         main_run fs cpath crawlerthreads args out"
| race: "startup cpath crawlerthreads args = Inr (n, dirs, files, g) \<Longrightarrow>
         crawl_steps fs dirs (start_crawl n g) s \<Longrightarrow> halted s = Some out \<Longrightarrow>
         i < length (workers s) \<Longrightarrow> j < length (workers s) \<Longrightarrow> i \<noteq> j \<Longrightarrow>
         in_loop (workers s ! i) \<Longrightarrow> in_loop (workers s ! j) \<Longrightarrow>
         main_run fs cpath crawlerthreads args Undefined"
| finish: "startup cpath crawlerthreads args = Inr (n, dirs, files, g) \<Longrightarrow>
         crawl_steps fs dirs (start_crawl n g) s \<Longrightarrow> halted s = None \<Longrightarrow>
         list_all (\<lambda>p. p = Finished) (workers s) \<Longrightarrow>
         print_targets (theTable s) files = Some ls \<Longrightarrow>
         main_run fs cpath crawlerthreads args (Exit 0 (render ls) [])"

section \<open>Properties\<close>

subsection \<open>Lines that the scanner skips\<close>

lemma goto_fields [simp]:
  "theTable (goto i p s) = theTable s" "workQ (goto i p s) = workQ s"
  "threadlock (goto i p s) = threadlock s" "bs (goto i p s) = bs s"
  "halted (goto i p s) = halted s" "t_count (goto i p s) = t_count s"
  "workers (goto i p s) = (workers s)[i := p]"
  by (simp_all add: goto_def)




definition include_line :: "string \<Rightarrow> string" where
  "include_line name = ''#include '' @ [DQUOTE] @ name @ [DQUOTE, NL]"
























subsection \<open>The traversal of \<^verbatim>\<open>printDependencies\<close>\<close>

lemma getValue_set: "set (fst (getValue t n)) = deps t `` {n}"
  by (auto simp: getValue_def deps_def split: option.splits)

lemma getValue_deps: "deps (snd (getValue t n)) = deps t"
  by (auto simp: getValue_def deps_def split: option.splits if_splits)

lemma Range_deps: "Range (deps t) = \<Union> (set ` ran t)"
  by (auto simp: deps_def ran_def)

lemma finite_Range_deps: "finite (dom t) \<Longrightarrow> finite (Range (deps t))"
  by (simp add: Range_deps finite_ran)

lemma set_fresh: "set (fresh P ll) = set ll - P"
  by (induction ll arbitrary: P) auto

lemma distinct_fresh: "distinct (fresh P ll)"
  by (induction ll arbitrary: P) (auto simp: set_fresh)

lemma print_entry_fresh:
  "print_entry ll (P, Q, out) = (P \<union> set (fresh P ll), Q @ fresh P ll, out @ fresh P ll)"
  by (induction ll arbitrary: P Q out) auto

lemma printDependencies_Nil: "printDependencies t P [] out = Some (t, P, [], out)"
  by (subst printDependencies.simps) simp

lemma printDependencies_Cons:
  "printDependencies t P (n # rest) out =
     printDependencies (snd (getValue t n)) (P \<union> set (fresh P (fst (getValue t n))))
       (rest @ fresh P (fst (getValue t n))) (out @ fresh P (fst (getValue t n)))"
  by (subst printDependencies.simps) (simp add: print_entry_fresh split: prod.splits)

lemma printDependencies_while:
  fixes Inv :: "table \<Rightarrow> string set \<Rightarrow> string list \<Rightarrow> string list \<Rightarrow> bool"
  assumes fin: "finite (Range (deps t))"
    and init: "Inv t P Q out"
    and step: "\<And>t P n rest out F. Inv t P (n # rest) out \<Longrightarrow> F = fresh P (fst (getValue t n)) \<Longrightarrow>
                 Inv (snd (getValue t n)) (P \<union> set F) (rest @ F) (out @ F)"
  shows "\<exists>t' P' out'. printDependencies t P Q out = Some (t', P', [], out') \<and> Inv t' P' [] out'"
  using fin init
proof (induction "2 * card (Range (deps t) - P) + length Q" arbitrary: t P Q out rule: less_induct)
  case less
  show ?case
  proof (cases Q)
    case Nil
    with less.prems show ?thesis by (simp add: printDependencies_Nil)
  next
    case (Cons n rest)
    define F where "F = fresh P (fst (getValue t n))"
    define t' where "t' = snd (getValue t n)"
    have d: "deps t' = deps t" by (simp add: t'_def getValue_deps)
    have sub: "set F \<subseteq> Range (deps t) - P"
      by (auto simp: F_def set_fresh getValue_set)
    have fin': "finite (Range (deps t) - P)" using less.prems(1) by simp
    have "Range (deps t) - (P \<union> set F) = (Range (deps t) - P) - set F" by auto
    then have "card (Range (deps t) - (P \<union> set F)) = card (Range (deps t) - P) - card (set F)"
      using sub fin' by (simp add: card_Diff_subset finite_subset)
    moreover have "card (set F) = length F"
      by (simp add: F_def distinct_fresh distinct_card)
    moreover have "length F \<le> card (Range (deps t) - P)"
      using sub fin' \<open>card (set F) = length F\<close> by (metis card_mono)
    ultimately have m: "2 * card (Range (deps t') - (P \<union> set F)) + length (rest @ F)
        < 2 * card (Range (deps t) - P) + length Q"
      using Cons d by simp
    have i: "Inv t' (P \<union> set F) (rest @ F) (out @ F)"
      unfolding t'_def using less.prems(2) F_def unfolding Cons by (rule step)
    have f: "finite (Range (deps t'))" using d less.prems(1) by simp
    from less.hyps [OF m f i] show ?thesis
      by (simp add: Cons printDependencies_Cons F_def t'_def)
  qed
qed


text \<open>Shortest paths.\<close>

lemma reach_depth: "(r, v) \<in> E\<^sup>* \<Longrightarrow> (r, v) \<in> E ^^ depth E r v"
  unfolding depth_def by (rule LeastI_ex) (rule rtrancl_imp_relpow)

lemma depth_le: "(r, v) \<in> E ^^ k \<Longrightarrow> depth E r v \<le> k"
  unfolding depth_def by (rule Least_le)

lemma depth_root: "depth E r r = 0"
  using depth_le [where k = 0 and r = r and v = r and E = E] by simp

lemma depth_step: "(r, u) \<in> E\<^sup>* \<Longrightarrow> (u, v) \<in> E \<Longrightarrow> depth E r v \<le> Suc (depth E r u)"
  by (rule depth_le) (auto dest: reach_depth)

lemma depth_pred:
  assumes "(r, v) \<in> E\<^sup>*" and "v \<noteq> r"
  shows "\<exists>w. (r, w) \<in> E\<^sup>* \<and> (w, v) \<in> E \<and> Suc (depth E r w) = depth E r v"
proof -
  have p: "(r, v) \<in> E ^^ depth E r v" using assms(1) by (rule reach_depth)
  have "depth E r v \<noteq> 0"
  proof
    assume "depth E r v = 0"
    with p have "v = r" by simp
    with assms(2) show False by simp
  qed
  then obtain j where j: "depth E r v = Suc j" by (cases "depth E r v") auto
  with p obtain w where w: "(r, w) \<in> E ^^ j" "(w, v) \<in> E" by auto
  have rw: "(r, w) \<in> E\<^sup>*" using w(1) by (rule relpow_imp_rtrancl)
  have "depth E r w \<le> j" using w(1) by (rule depth_le)
  moreover have "depth E r v \<le> Suc (depth E r w)" using rw w(2) by (rule depth_step)
  ultimately have "Suc (depth E r w) = depth E r v" using j by simp
  with rw w(2) show ?thesis by blast
qed

lemma sorted_map_const: "(\<And>y. y \<in> set F \<Longrightarrow> f y = (c::nat)) \<Longrightarrow> sorted (map f F)"
  by (induction F) auto

definition bfs_inv ::
  "(string \<times> string) set \<Rightarrow> string \<Rightarrow> string set \<Rightarrow> string list \<Rightarrow> string list \<Rightarrow> bool" where
  "bfs_inv E r P Q out \<longleftrightarrow>
     P = set (r # out) \<and> distinct (r # out) \<and>
     (\<forall>x \<in> P. (r, x) \<in> E\<^sup>*) \<and>
     sorted (map (depth E r) (r # out)) \<and>
     (\<exists>D. r # out = D @ Q \<and> (\<forall>u \<in> set D. E `` {u} \<subseteq> P) \<and>
        (\<forall>h \<in> set (take 1 Q).
           (\<forall>x \<in> P. depth E r x \<le> Suc (depth E r h)) \<and>
           (\<forall>v. (r, v) \<in> E\<^sup>* \<and> depth E r v < depth E r h \<longrightarrow> v \<in> set D)))"

lemma bfs_inv_init: "bfs_inv E r {r} [r] []"
  unfolding bfs_inv_def
  by (auto simp: depth_root intro!: exI [of _ "[]"])

lemma bfs_inv_step:
  assumes inv: "bfs_inv E r P (u # Q) out"
    and F: "distinct F" "set F = E `` {u} - P"
  shows "bfs_inv E r (P \<union> set F) (Q @ F) (out @ F)"
proof -
  let ?d = "depth E r"
  from inv have P: "P = set (r # out)" and dist: "distinct (r # out)"
    and reach: "\<forall>x \<in> P. (r, x) \<in> E\<^sup>*"
    and srt: "sorted (map ?d (r # out))"
    unfolding bfs_inv_def by blast+
  from inv obtain D where D: "r # out = D @ u # Q \<and> (\<forall>w \<in> set D. E `` {w} \<subseteq> P) \<and>
        (\<forall>h \<in> set (take 1 (u # Q)).
           (\<forall>x \<in> P. ?d x \<le> Suc (?d h)) \<and>
           (\<forall>v. (r, v) \<in> E\<^sup>* \<and> ?d v < ?d h \<longrightarrow> v \<in> set D))"
    unfolding bfs_inv_def by blast
  from D have L: "r # out = D @ u # Q"
    and closed: "\<forall>w \<in> set D. E `` {w} \<subseteq> P"
    and near: "\<forall>x \<in> P. ?d x \<le> Suc (?d u)"
    and below: "\<forall>v. (r, v) \<in> E\<^sup>* \<and> ?d v < ?d u \<longrightarrow> v \<in> set D"
    by simp_all
  have uP: "u \<in> P" using P L by (metis in_set_conv_decomp)
  have ru: "(r, u) \<in> E\<^sup>*" using reach uP by blast
  have rP: "r \<in> P" using P by simp
  have dF: "?d y = Suc (?d u)" if "y \<in> set F" for y
  proof -
    from that F have uy: "(u, y) \<in> E" and yP: "y \<notin> P" by auto
    have ry: "(r, y) \<in> E\<^sup>*" using ru uy by (rule rtrancl_into_rtrancl)
    have le: "?d y \<le> Suc (?d u)" using ru uy by (rule depth_step)
    have "y \<noteq> r" using yP rP by auto
    with ry obtain w where w: "(r, w) \<in> E\<^sup>*" "(w, y) \<in> E" "Suc (?d w) = ?d y"
      using depth_pred by blast
    have "\<not> ?d w < ?d u"
    proof
      assume "?d w < ?d u"
      with w(1) below have "w \<in> set D" by blast
      with closed w(2) have "y \<in> P" by blast
      with yP show False by simp
    qed
    with w(3) le show ?thesis by simp
  qed
  have P': "P \<union> set F = set (r # out @ F)" using P by auto
  have dist': "distinct (r # out @ F)"
    using dist F P by auto
  have reach': "\<forall>x \<in> P \<union> set F. (r, x) \<in> E\<^sup>*"
    using reach F ru by (auto intro: rtrancl_into_rtrancl)
  have srt': "sorted (map ?d (r # out @ F))"
  proof -
    have "sorted (map ?d ((r # out) @ F))"
      unfolding map_append sorted_append
    proof (intro conjI ballI)
      show "sorted (map ?d (r # out))" by (rule srt)
      show "sorted (map ?d F)"
        by (rule sorted_map_const [where c = "Suc (?d u)"]) (simp add: dF)
    next
      fix a b assume "a \<in> set (map ?d (r # out))" "b \<in> set (map ?d F)"
      then obtain x y where "x \<in> P" "a = ?d x" "y \<in> set F" "b = ?d y"
        using P by auto
      with near dF show "a \<le> b" by simp
    qed
    then show ?thesis by simp
  qed
  have L': "r # out @ F = (D @ [u]) @ Q @ F" using L by simp
  have closed': "\<forall>w \<in> set (D @ [u]). E `` {w} \<subseteq> P \<union> set F"
    using closed F by auto
  have head: "(\<forall>x \<in> P \<union> set F. ?d x \<le> Suc (?d h)) \<and>
              (\<forall>v. (r, v) \<in> E\<^sup>* \<and> ?d v < ?d h \<longrightarrow> v \<in> set (D @ [u]))"
    if h: "h \<in> set (take 1 (Q @ F))" for h
  proof -
    from h obtain T where T: "Q @ F = h # T" by (cases "Q @ F") auto
    have hin: "h \<in> set Q \<union> set F" using T by (metis Un_iff list.set_intros(1) set_append)
    have srt2: "sorted (map ?d (D @ [u] @ h # T))"
      using srt' L' T by simp
    have uh: "?d u \<le> ?d h"
      using srt2 by (auto simp: sorted_append)
    have hu: "?d h \<le> Suc (?d u)"
      using hin near dF P L by auto
    have 1: "\<forall>x \<in> P \<union> set F. ?d x \<le> Suc (?d h)"
      using near dF uh by (auto intro: le_trans)
    have 2: "v \<in> set (D @ [u])" if v: "(r, v) \<in> E\<^sup>*" "?d v < ?d h" for v
    proof (cases "?d v < ?d u")
      case True
      with v(1) below show ?thesis by simp
    next
      case False
      have vin: "v \<in> P"
      proof (cases "v = r")
        case True
        with rP show ?thesis by simp
      next
        case False
        with v(1) obtain w where w: "(r, w) \<in> E\<^sup>*" "(w, v) \<in> E" "Suc (?d w) = ?d v"
          using depth_pred by blast
        have "?d w < ?d u" using w(3) v(2) hu by simp
        with w(1) below have "w \<in> set D" by blast
        with closed w(2) show ?thesis by blast
      qed
      have "v \<notin> set (h # T)"
      proof
        assume "v \<in> set (h # T)"
        then have "?d h \<le> ?d v" using srt2 by (auto simp: sorted_append)
        with v(2) show False by simp
      qed
      moreover have "v \<in> set (D @ [u] @ h # T)"
        using vin L' T P by (metis P' Un_iff append.assoc)
      ultimately show ?thesis by auto
    qed
    from 1 2 show ?thesis by blast
  qed
  show ?thesis
    unfolding bfs_inv_def
  proof (intro conjI)
    show "\<exists>Da. r # out @ F = Da @ Q @ F \<and> (\<forall>u\<in>set Da. E `` {u} \<subseteq> P \<union> set F) \<and>
         (\<forall>h\<in>set (take 1 (Q @ F)).
             (\<forall>x\<in>P \<union> set F. ?d x \<le> Suc (?d h)) \<and>
             (\<forall>v. (r, v) \<in> E\<^sup>* \<and> ?d v < ?d h \<longrightarrow> v \<in> set Da))"
      using L' closed' head by blast
  qed (use P' dist' reach' srt' in simp_all)
qed


text \<open>The traversal from a root: it returns, and what it has printed when it returns.\<close>

lemma getValue_map_le: "t \<subseteq>\<^sub>m snd (getValue t n)"
  by (auto simp: getValue_def map_le_def split: option.splits)

lemma getValue_finite: "finite (dom t) \<Longrightarrow> finite (dom (snd (getValue t n)))"
  by (auto simp: getValue_def split: option.splits)

lemma fresh_step:
  "distinct (fresh P (fst (getValue t n))) \<and>
   set (fresh P (fst (getValue t n))) = deps t `` {n} - P"
  by (simp add: distinct_fresh set_fresh getValue_set)

lemma traversal_run:
  assumes "finite (dom t)"
  shows "\<exists>t' P' out. printDependencies t {r} [r] [] = Some (t', P', [], out) \<and>
           t \<subseteq>\<^sub>m t' \<and> finite (dom t') \<and> deps t' = deps t \<and> bfs_inv (deps t) r P' [] out"
proof -
  define Inv where "Inv = (\<lambda>t' P Q out.
     t \<subseteq>\<^sub>m t' \<and> finite (dom t') \<and> deps t' = deps t \<and> bfs_inv (deps t) r P Q out)"
  have fin: "finite (Range (deps t))" using assms by (rule finite_Range_deps)
  have init: "Inv t {r} [r] []"
    unfolding Inv_def using assms by (simp add: bfs_inv_init)
  have step: "Inv (snd (getValue t' n)) (P \<union> set F) (rest @ F) (out @ F)"
    if i: "Inv t' P (n # rest) out" and F: "F = fresh P (fst (getValue t' n))" for t' P n rest out F
  proof -
    from i have a: "t \<subseteq>\<^sub>m t'" and b: "finite (dom t')" and c: "deps t' = deps t"
      and d: "bfs_inv (deps t) r P (n # rest) out"
      unfolding Inv_def by blast+
    have "t \<subseteq>\<^sub>m snd (getValue t' n)"
      using a getValue_map_le by (rule map_le_trans)
    moreover have "finite (dom (snd (getValue t' n)))" using b by (rule getValue_finite)
    moreover have "deps (snd (getValue t' n)) = deps t" using c by (simp add: getValue_deps)
    moreover have "bfs_inv (deps t) r (P \<union> set F) (rest @ F) (out @ F)"
      using d fresh_step [of P t' n] unfolding F c by (intro bfs_inv_step) simp_all
    ultimately show ?thesis unfolding Inv_def by blast
  qed
  from printDependencies_while [where Inv = Inv, OF fin init step]
  show ?thesis unfolding Inv_def by blast
qed

lemma bfs_inv_final:
  assumes "bfs_inv E r P [] out"
  shows "distinct out \<and> r \<notin> set out \<and> set out = E\<^sup>* `` {r} - {r} \<and>
         sorted (map (depth E r) out)"
proof -
  from assms have P: "P = set (r # out)" and dist: "distinct (r # out)"
    and reach: "\<forall>x \<in> P. (r, x) \<in> E\<^sup>*"
    and srt: "sorted (map (depth E r) (r # out))"
    unfolding bfs_inv_def by blast+
  from assms obtain D where "r # out = D @ [] \<and> (\<forall>u \<in> set D. E `` {u} \<subseteq> P)"
    unfolding bfs_inv_def by blast
  then have "D = r # out" and "\<forall>u \<in> set D. E `` {u} \<subseteq> P" by simp_all
  then have closed: "\<forall>u \<in> P. E `` {u} \<subseteq> P" using P by blast
  have "x \<in> P" if "(r, x) \<in> E\<^sup>*" for x
    using that
  proof (induction rule: rtrancl_induct)
    case base
    show ?case using P by simp
  next
    case (step y z)
    with closed show ?case by blast
  qed
  with reach have "P = E\<^sup>* `` {r}" by blast
  then have "set out = E\<^sup>* `` {r} - {r}" using P dist by auto
  with dist srt show ?thesis by simp
qed

lemma reach_trancl: "E\<^sup>* `` {r} - {r} = {n. (r, n) \<in> E\<^sup>+} - {r}"
  by (auto simp: rtrancl_eq_or_trancl)

lemma traversal_result:
  assumes "finite (dom t)"
  shows "\<exists>out. flatten t r = Some out \<and> distinct out \<and> r \<notin> set out \<and>
           set out = {n. (r, n) \<in> (deps t)\<^sup>+} - {r} \<and> sorted (map (depth (deps t) r) out)"
proof -
  from traversal_run [OF assms, of r] obtain t' P' out where
    run: "printDependencies t {r} [r] [] = Some (t', P', [], out)"
    and inv: "bfs_inv (deps t) r P' [] out"
    by blast
  from run have "flatten t r = Some out" by (simp add: flatten_def)
  with bfs_inv_final [OF inv] show ?thesis by (simp add: reach_trancl)
qed

text \<open>The order of first discovery.\<close>

definition discovery_inv ::
  "table \<Rightarrow> string \<Rightarrow> string list \<Rightarrow> string list \<Rightarrow> bool" where
  "discovery_inv t r Q out \<longleftrightarrow>
     (\<exists>blocks. out = concat blocks \<and> length blocks \<le> length (r # out) \<and>
        r # out = take (length blocks) (r # out) @ Q \<and>
        (\<forall>i < length blocks.
           blocks ! i = fresh (insert r (set (concat (take i blocks))))
                          (fst (getValue t ((r # out) ! i)))))"

lemma split_at:
  assumes "L = D @ u # R" and "length D = n"
  shows "L = take (Suc n) L @ R" and "L ! n = u" and "i < n \<Longrightarrow> L ! i = D ! i"
    and "Suc n \<le> length L"
  unfolding assms(1) using assms(2) by (auto simp: nth_append)

lemma discovery_inv_init: "discovery_inv t r [r] []"
  unfolding discovery_inv_def by (intro exI [of _ "[]"]) simp

lemma discovery_inv_step:
  assumes inv: "discovery_inv t r (u # Q) out"
    and F: "F = fresh (insert r (set out)) (fst (getValue t u))"
  shows "discovery_inv t r (Q @ F) (out @ F)"
proof -
  from inv obtain blocks where out: "out = concat blocks"
    and len: "length blocks \<le> length (r # out)"
    and L: "r # out = take (length blocks) (r # out) @ u # Q"
    and bl: "\<forall>i < length blocks.
           blocks ! i = fresh (insert r (set (concat (take i blocks))))
                          (fst (getValue t ((r # out) ! i)))"
    unfolding discovery_inv_def by blast
  define D where "D = take (length blocks) (r # out)"
  have lD: "length D = length blocks" using len by (simp add: D_def)
  have L': "r # out = D @ u # Q" using L by (simp add: D_def)
  have L'': "r # out @ F = D @ u # Q @ F" using L' by simp
  have nth_old: "(r # out @ F) ! i = (r # out) ! i" if "i < length blocks" for i
    using split_at(3) [OF L'' lD that] split_at(3) [OF L' lD that] by simp
  have nth_u: "(r # out @ F) ! length blocks = u"
    using L'' lD by (rule split_at(2))
  let ?bs = "blocks @ [F]"
  have 1: "out @ F = concat ?bs" using out by simp
  have 2: "length ?bs \<le> length (r # out @ F)"
    using split_at(4) [OF L'' lD] by simp
  have 3: "r # out @ F = take (length ?bs) (r # out @ F) @ Q @ F"
    using split_at(1) [OF L'' lD] by simp
  have 4: "?bs ! i = fresh (insert r (set (concat (take i ?bs))))
                          (fst (getValue t ((r # out @ F) ! i)))" if i: "i < length ?bs" for i
  proof (cases "i < length blocks")
    case True
    then have "?bs ! i = blocks ! i" "take i ?bs = take i blocks"
      by (simp_all add: nth_append)
    with bl True nth_old [OF True] show ?thesis by simp
  next
    case False
    with i have e: "i = length blocks" by simp
    then have "?bs ! i = F" "take i ?bs = blocks" by simp_all
    with F out nth_u e show ?thesis by simp
  qed
  show ?thesis
    unfolding discovery_inv_def
  proof (intro exI [of _ ?bs] conjI allI impI)
    show "out @ F = concat ?bs" by (rule 1)
    show "length ?bs \<le> length (r # out @ F)" by (rule 2)
    show "r # out @ F = take (length ?bs) (r # out @ F) @ Q @ F" by (rule 3)
    show "?bs ! i = fresh (insert r (set (concat (take i ?bs))))
                          (fst (getValue t ((r # out @ F) ! i)))" if "i < length ?bs" for i
      using that by (rule 4)
  qed
qed

lemma getValue_entries: "fst (getValue (snd (getValue t n)) k) = fst (getValue t k)"
  by (auto simp: getValue_def split: option.splits)

lemma traversal_discovery:
  assumes "finite (dom t)"
  shows "\<exists>t' P' out. printDependencies t {r} [r] [] = Some (t', P', [], out) \<and>
           discovery_inv t r [] out"
proof -
  define Inv where "Inv = (\<lambda>t' P Q out.
     (\<forall>k. fst (getValue t' k) = fst (getValue t k)) \<and> P = insert r (set out) \<and>
     discovery_inv t r Q out)"
  have fin: "finite (Range (deps t))" using assms by (rule finite_Range_deps)
  have init: "Inv t {r} [r] []"
    unfolding Inv_def by (simp add: discovery_inv_init)
  have step: "Inv (snd (getValue t' n)) (P \<union> set F) (rest @ F) (out @ F)"
    if i: "Inv t' P (n # rest) out" and F: "F = fresh P (fst (getValue t' n))" for t' P n rest out F
  proof -
    from i have a: "\<forall>k. fst (getValue t' k) = fst (getValue t k)"
      and b: "P = insert r (set out)" and c: "discovery_inv t r (n # rest) out"
      unfolding Inv_def by blast+
    have "F = fresh (insert r (set out)) (fst (getValue t n))" using F a b by simp
    with c have "discovery_inv t r (rest @ F) (out @ F)" by (rule discovery_inv_step)
    moreover have "\<forall>k. fst (getValue (snd (getValue t' n)) k) = fst (getValue t k)"
      using a by (simp add: getValue_entries)
    moreover have "P \<union> set F = insert r (set (out @ F))" using b by auto
    ultimately show ?thesis unfolding Inv_def by blast
  qed
  from printDependencies_while [where Inv = Inv, OF fin init step]
  show ?thesis unfolding Inv_def by blast
qed

lemma discovery_inv_final:
  assumes "discovery_inv t r [] out"
  shows "\<exists>blocks. length blocks = Suc (length out) \<and> out = concat blocks \<and>
           (\<forall>i < Suc (length out).
              blocks ! i = fresh (insert r (set (concat (take i blocks))))
                             (fst (getValue t ((r # out) ! i))))"
proof -
  from assms obtain blocks where out: "out = concat blocks"
    and len: "length blocks \<le> length (r # out)"
    and L: "r # out = take (length blocks) (r # out) @ []"
    and bl: "\<forall>i < length blocks.
           blocks ! i = fresh (insert r (set (concat (take i blocks))))
                          (fst (getValue t ((r # out) ! i)))"
    unfolding discovery_inv_def by blast
  from L have "length (r # out) = length (take (length blocks) (r # out))" by simp
  with len have "length blocks = Suc (length out)" by simp
  with out bl show ?thesis by auto
qed

lemma traversal_order:
  assumes "finite (dom t)" and "flatten t r = Some out"
  shows "\<exists>blocks. length blocks = Suc (length out) \<and> out = concat blocks \<and>
           (\<forall>i < Suc (length out).
              blocks ! i = fresh (insert r (set (concat (take i blocks))))
                             (fst (getValue t ((r # out) ! i))))"
proof -
  from traversal_discovery [OF assms(1), of r] obtain t' P' out' where
    "printDependencies t {r} [r] [] = Some (t', P', [], out')" and d: "discovery_inv t r [] out'"
    by blast
  with assms(2) have "out' = out" by (simp add: flatten_def)
  with d show ?thesis using discovery_inv_final by blast
qed

text \<open>
  Claim C1.  For every root and every (finite) table, the traversal that step 5 of \<^verbatim>\<open>main\<close>
  starts returns.  The names it has printed are the names other than the root that can be
  reached from the root along the dependency relation, each printed once, the root never.
  They are in breadth-first order: a name at a smaller distance from the root is printed before
  a name at a greater distance.  And they are in the order of first discovery: the output is
  the concatenation, over the root and the names printed, in the order printed, of what each
  of them contributes, which is the names of its dependency list that no earlier one has
  contributed, each once, in the order of the list.
\<close>

theorem flatten_breadth_first:
  assumes "finite (dom t)"
  shows "\<exists>out. flatten t root = Some out \<and> distinct out \<and> root \<notin> set out \<and>
           set out = {n. (root, n) \<in> (deps t)\<^sup>+} - {root} \<and>
           sorted (map (depth (deps t) root) out) \<and>
           (\<exists>blocks. length blocks = Suc (length out) \<and> out = concat blocks \<and>
              (\<forall>i < Suc (length out).
                 blocks ! i = fresh (insert root (set (concat (take i blocks))))
                                (fst (getValue t ((root # out) ! i)))))"
proof -
  from traversal_result [OF assms, of root] obtain out where
    out: "flatten t root = Some out" "distinct out" "root \<notin> set out"
      "set out = {n. (root, n) \<in> (deps t)\<^sup>+} - {root}"
      "sorted (map (depth (deps t) root) out)"
    by blast
  from traversal_order [OF assms out(1)] out show ?thesis by blast
qed

definition include_example :: table where
  "include_example =
     [''foo.o'' \<mapsto> [''foo.c''], ''foo.c'' \<mapsto> [''inc1.h''],
      ''inc1.h'' \<mapsto> [''inc2.h'', ''inc3.h''], ''inc2.h'' \<mapsto> [], ''inc3.h'' \<mapsto> []]"

lemma flatten_include_example:
  "flatten include_example ''foo.o'' = Some [''foo.c'', ''inc1.h'', ''inc2.h'', ''inc3.h'']"
  unfolding include_example_def flatten_def
  by (simp add: printDependencies_Cons printDependencies_Nil getValue_def)

theorem flatten_breadth_first_witness:
  "finite (dom include_example) \<and>
   flatten include_example ''foo.o'' = Some [''foo.c'', ''inc1.h'', ''inc2.h'', ''inc3.h''] \<and>
   set [''foo.c'', ''inc1.h'', ''inc2.h'', ''inc3.h'']
     = {n. (''foo.o'', n) \<in> (deps include_example)\<^sup>+} - {''foo.o''} \<and>
   sorted (map (depth (deps include_example) ''foo.o'')
     [''foo.c'', ''inc1.h'', ''inc2.h'', ''inc3.h''])"
proof -
  have f: "finite (dom include_example)"
    by (simp add: include_example_def)
  from flatten_breadth_first [OF f, of "''foo.o''"] obtain out where
    "flatten include_example ''foo.o'' = Some out"
    "set out = {n. (''foo.o'', n) \<in> (deps include_example)\<^sup>+} - {''foo.o''}"
    "sorted (map (depth (deps include_example) ''foo.o'') out)"
    by blast
  with f flatten_include_example show ?thesis by simp
qed

text \<open>
  Claim C3.  For every (finite) table, cyclic or not, and from every state of the traversal,
  \<^verbatim>\<open>printDependencies\<close> returns, with \<^verbatim>\<open>toProcess\<close> empty.  What one pass over a dependency list
  appends to \<^verbatim>\<open>toProcess\<close> are names that were not in \<^verbatim>\<open>printed\<close>, each once, and all of them
  are in \<^verbatim>\<open>printed\<close> afterwards.
\<close>

theorem printDependencies_terminates:
  assumes "finite (dom t)"
  shows "(\<exists>t' printed' out'.
            printDependencies t printed toProcess out = Some (t', printed', [], out')) \<and>
         print_entry ll (printed, toProcess, out)
           = (printed \<union> set (fresh printed ll), toProcess @ fresh printed ll,
              out @ fresh printed ll) \<and>
         distinct (fresh printed ll) \<and> set (fresh printed ll) \<inter> printed = {}"
proof -
  have "finite (Range (deps t))" using assms by (rule finite_Range_deps)
  from printDependencies_while [where Inv = "\<lambda>t P Q out. True", OF this]
  have "\<exists>t' printed' out'.
          printDependencies t printed toProcess out = Some (t', printed', [], out')"
    by simp
  moreover have "set (fresh printed ll) \<inter> printed = {}"
    by (auto simp: set_fresh)
  ultimately show ?thesis
    by (simp add: print_entry_fresh distinct_fresh)
qed

definition cyclic_table :: table where
  "cyclic_table = [''a.h'' \<mapsto> [''b.h''], ''b.h'' \<mapsto> [''a.h'']]"

lemma printDependencies_cyclic_table:
  "printDependencies cyclic_table {''x.o''} [''a.h''] []
     = Some (cyclic_table, {''x.o'', ''a.h'', ''b.h''}, [], [''b.h'', ''a.h''])"
  unfolding cyclic_table_def
  by (simp add: printDependencies_Cons printDependencies_Nil getValue_def insert_commute)

theorem printDependencies_terminates_witness:
  "finite (dom cyclic_table) \<and>
   printDependencies cyclic_table {''x.o''} [''a.h''] []
     = Some (cyclic_table, {''x.o'', ''a.h'', ''b.h''}, [], [''b.h'', ''a.h'']) \<and>
   print_entry [''b.h'', ''b.h''] ({''x.o''}, [], [])
     = ({''x.o''} \<union> set (fresh {''x.o''} [''b.h'', ''b.h'']),
        [] @ fresh {''x.o''} [''b.h'', ''b.h''], [] @ fresh {''x.o''} [''b.h'', ''b.h''])"
proof -
  have f: "finite (dom cyclic_table)"
    by (simp add: cyclic_table_def)
  from printDependencies_terminates [OF f, of "{''x.o''}" "[]" "[]" "[''b.h'', ''b.h'']"]
  have "print_entry [''b.h'', ''b.h''] ({''x.o''}, [], [])
     = ({''x.o''} \<union> set (fresh {''x.o''} [''b.h'', ''b.h'']),
        [] @ fresh {''x.o''} [''b.h'', ''b.h''], [] @ fresh {''x.o''} [''b.h'', ''b.h''])"
    by blast
  with f printDependencies_cyclic_table show ?thesis by blast
qed

subsection \<open>What \<^verbatim>\<open>process\<close> appends\<close>

lemma record_include_entry:
  "fst (getValue (theTable (record_include f name g)) f) = fst (getValue (theTable g) f) @ [name]"
  by (simp add: record_include_def push_back_entry_def insert_map_def getValue_def Let_def
      split: option.splits)

lemma process_line_entry:
  "fst (getValue (theTable (process_line f buf g)) f)
     = fst (getValue (theTable g) f) @ (case scan_line buf of None \<Rightarrow> [] | Some name \<Rightarrow> [name])"
  by (simp add: process_line_def record_include_entry split: option.splits)

lemma process_lines_entry:
  "fst (getValue (theTable (foldl (\<lambda>g buf. process_line f buf g) g bufs)) f)
     = fst (getValue (theTable g) f) @ List.map_filter scan_line bufs"
proof (induction bufs arbitrary: g)
  case Nil
  show ?case by (simp add: List.map_filter_simps)
next
  case (Cons buf bufs)
  show ?case
    by (simp add: Cons.IH process_line_entry List.map_filter_simps split: option.splits)
qed

lemma count_list_map_filter:
  "count_list (List.map_filter h xs) y = length (filter (\<lambda>x. h x = Some y) xs)"
  by (induction xs) (auto simp: List.map_filter_simps split: option.splits)

lemma count_list_distinct: "distinct xs \<Longrightarrow> count_list xs y = (if y \<in> set xs then 1 else 0)"
  by (induction xs) auto

text \<open>
  Claim C2.  \<^verbatim>\<open>process\<close> appends every name it collects from a line of the file to the
  dependency list of the file, so that the list gains a name once for each line that names
  it; the traversal over a (finite) table prints a name once if it can be reached from the
  root and is not the root, however often the lists hold it, and not at all otherwise.
\<close>

theorem duplicates_collected_not_printed:
  assumes "openFile fs dirs f = Some content" and "finite (dom t)"
  shows "(\<exists>g'. process fs dirs f g = Inr g' \<and>
            fst (getValue (theTable g') f)
              = fst (getValue (theTable g) f) @ List.map_filter scan_line (fgets_lines content) \<and>
            count_list (fst (getValue (theTable g') f)) name
              = count_list (fst (getValue (theTable g) f)) name
                + length (filter (\<lambda>buf. scan_line buf = Some name) (fgets_lines content))) \<and>
         (\<exists>out. flatten t root = Some out \<and>
            count_list out name = (if name \<noteq> root \<and> (root, name) \<in> (deps t)\<^sup>+ then 1 else 0))"
proof -
  define g' where "g' = foldl (\<lambda>g buf. process_line f buf g) g (fgets_lines content)"
  have p: "process fs dirs f g = Inr g'"
    using assms(1) by (simp add: process_def g'_def)
  have e: "fst (getValue (theTable g') f)
      = fst (getValue (theTable g) f) @ List.map_filter scan_line (fgets_lines content)"
    unfolding g'_def by (rule process_lines_entry)
  have c: "count_list (fst (getValue (theTable g') f)) name
      = count_list (fst (getValue (theTable g) f)) name
        + length (filter (\<lambda>buf. scan_line buf = Some name) (fgets_lines content))"
    unfolding e by (simp add: count_list_map_filter)
  from traversal_result [OF assms(2), of root] obtain out where
    out: "flatten t root = Some out" "distinct out"
      "set out = {n. (root, n) \<in> (deps t)\<^sup>+} - {root}"
    by blast
  have "count_list out name = (if name \<noteq> root \<and> (root, name) \<in> (deps t)\<^sup>+ then 1 else 0)"
    using out(2,3) by (simp add: count_list_distinct)
  with p e c out(1) show ?thesis by blast
qed

definition twice_a :: string where
  "twice_a = ''#include '' @ [DQUOTE] @ ''a.h'' @ [DQUOTE, NL] @
             ''#include '' @ [DQUOTE] @ ''a.h'' @ [DQUOTE, NL]"

definition fs_twice :: filesystem where
  "fs_twice = [''./foo.c'' \<mapsto> twice_a, ''./a.h'' \<mapsto> []]"

definition seeded_foo :: globals where
  "seeded_foo = \<lparr>theTable = [''foo.o'' \<mapsto> [''foo.c''], ''foo.c'' \<mapsto> []], workQ = []\<rparr>"

definition collected_twice :: table where
  "collected_twice =
     [''foo.o'' \<mapsto> [''foo.c''], ''foo.c'' \<mapsto> [''a.h'', ''a.h''], ''a.h'' \<mapsto> []]"

lemma matches_twice_a: "List.map_filter scan_line (fgets_lines twice_a) = [''a.h'', ''a.h'']"
  by (simp add: twice_a_def List.map_filter_simps scan_line_def c_str_def isspace_def)

lemma flatten_collected_twice: "flatten collected_twice ''foo.o'' = Some [''foo.c'', ''a.h'']"
  unfolding collected_twice_def flatten_def
  by (simp add: printDependencies_Cons printDependencies_Nil getValue_def)

theorem duplicates_collected_not_printed_witness:
  "openFile fs_twice [''./''] ''foo.c'' = Some twice_a \<and> finite (dom collected_twice) \<and>
   (\<exists>g'. process fs_twice [''./''] ''foo.c'' seeded_foo = Inr g' \<and>
      fst (getValue (theTable g') ''foo.c'') = [''a.h'', ''a.h'']) \<and>
   flatten collected_twice ''foo.o'' = Some [''foo.c'', ''a.h''] \<and>
   count_list [''foo.c'', ''a.h''] ''a.h'' = 1"
proof -
  have o: "openFile fs_twice [''./''] ''foo.c'' = Some twice_a"
    by (simp add: fs_twice_def)
  have f: "finite (dom collected_twice)"
    by (simp add: collected_twice_def)
  have s: "fst (getValue (theTable seeded_foo) ''foo.c'') = []"
    by (simp add: seeded_foo_def getValue_def)
  from duplicates_collected_not_printed [OF o f, of seeded_foo "''a.h''" "''foo.o''"]
  obtain g' where "process fs_twice [''./''] ''foo.c'' seeded_foo = Inr g'"
    "fst (getValue (theTable g') ''foo.c'')
       = fst (getValue (theTable seeded_foo) ''foo.c'') @ List.map_filter scan_line (fgets_lines twice_a)"
    by blast
  then have "\<exists>g'. process fs_twice [''./''] ''foo.c'' seeded_foo = Inr g' \<and>
      fst (getValue (theTable g') ''foo.c'') = [''a.h'', ''a.h'']"
    using s matches_twice_a by simp
  with o f flatten_collected_twice show ?thesis by simp
qed


subsection \<open>The start of the program\<close>

lemma main_run_early_iff:
  assumes "startup cpath crawlerthreads args = Inl out"
  shows "main_run fs cpath crawlerthreads args out' \<longleftrightarrow> out' = out"
proof
  assume "main_run fs cpath crawlerthreads args out'"
  then show "out' = out" using assms by cases simp_all
next
  assume "out' = out"
  with assms show "main_run fs cpath crawlerthreads args out'" by (simp add: main_run.early)
qed

lemma startup_terminate:
  "number_of_threads crawlerthreads = Inl e \<Longrightarrow> startup cpath crawlerthreads args = Inl (Terminate e)"
  by (simp add: startup_def)

lemma length_workers_start [simp]: "length (workers (start_crawl n g)) = nat n"
  by (simp add: start_crawl_def)

lemma stoi_abc: "stoi ''abc'' = Inl Invalid_argument"
  by (simp add: stoi_def isspace_def isdigit_def)

lemma stoi_4: "stoi ''4'' = Inr 4"
  by (simp add: stoi_def isspace_def isdigit_def decimal_def)

text \<open>
  Claim C9, as the specification states it, fails: with \<^verbatim>\<open>CRAWLER_THREADS=abc\<close> the number of
  threads is not 2; \<^verbatim>\<open>std::stoi\<close> throws, nothing catches the exception and the program ends in
  \<^verbatim>\<open>std::terminate\<close>.
\<close>

theorem pool_size_counterexample:
  "number_of_threads (Some ''abc'') = Inl Invalid_argument \<and>
   number_of_threads (Some ''abc'') \<noteq> Inr 2 \<and>
   main_run Map.empty None (Some ''abc'') [''foo.c''] (Terminate Invalid_argument) \<and>
   startup None (Some ''abc'') [''foo.c''] = Inl (Terminate Invalid_argument)"
proof -
  have n: "number_of_threads (Some ''abc'') = Inl Invalid_argument"
    by (simp add: number_of_threads_def stoi_abc)
  then have s: "startup None (Some ''abc'') [''foo.c''] = Inl (Terminate Invalid_argument)"
    by (rule startup_terminate)
  then have "main_run Map.empty None (Some ''abc'') [''foo.c''] (Terminate Invalid_argument)"
    by (rule main_run.early)
  with n s show ?thesis by simp
qed

text \<open>
  Claim C9, amended.  Without \<^verbatim>\<open>CRAWLER_THREADS\<close> the number of threads is 2.  With a value
  that \<^verbatim>\<open>std::stoi\<close> reads as \<open>n\<close>, it is \<open>n\<close> (no thread at all for \<open>n \<le> 0\<close>).  With a value that
  \<^verbatim>\<open>std::stoi\<close> rejects there is no fallback: every run ends in \<^verbatim>\<open>std::terminate\<close> with the
  exception thrown.
\<close>

theorem pool_size:
  "number_of_threads None = Inr 2 \<and>
   (\<forall>str n g. stoi str = Inr n \<longrightarrow>
      number_of_threads (Some str) = Inr n \<and> length (workers (start_crawl n g)) = nat n) \<and>
   (\<forall>str e fs cpath args out. stoi str = Inl e \<longrightarrow>
      number_of_threads (Some str) = Inl e \<and>
      (main_run fs cpath (Some str) args out \<longleftrightarrow> out = Terminate e))"
proof (intro conjI allI impI)
  show "number_of_threads None = Inr 2" by (simp add: number_of_threads_def)
next
  fix str n assume "stoi str = Inr n"
  then show "number_of_threads (Some str) = Inr n" by (simp add: number_of_threads_def)
next
  fix n :: int and g show "length (workers (start_crawl n g)) = nat n" by simp
next
  fix str e assume "stoi str = Inl e"
  then show "number_of_threads (Some str) = Inl e" by (simp add: number_of_threads_def)
next
  fix str e fs cpath args out assume "stoi str = Inl e"
  then have "number_of_threads (Some str) = Inl e" by (simp add: number_of_threads_def)
  then have "startup cpath (Some str) args = Inl (Terminate e)" by (rule startup_terminate)
  then show "main_run fs cpath (Some str) args out \<longleftrightarrow> out = Terminate e"
    by (rule main_run_early_iff)
qed

theorem pool_size_witness:
  "stoi ''4'' = Inr 4 \<and> number_of_threads (Some ''4'') = Inr 4 \<and>
   length (workers (start_crawl 4 \<lparr>theTable = Map.empty, workQ = []\<rparr>)) = 4 \<and>
   stoi ''abc'' = Inl Invalid_argument \<and>
   number_of_threads (Some ''abc'') = Inl Invalid_argument \<and>
   main_run Map.empty None (Some ''abc'') [] (Terminate Invalid_argument)"
  using pool_size stoi_4 stoi_abc by simp


subsection \<open>The search path\<close>

text \<open>\<^verbatim>\<open>openFile\<close> returns the file of the first prefix in \<^verbatim>\<open>dirs\<close> under which the name opens.\<close>

lemma openFile_first:
  "openFile fs dirs f = Some content \<longleftrightarrow>
     (\<exists>i < length dirs. fs (dirs ! i @ f) = Some content \<and> (\<forall>j < i. fs (dirs ! j @ f) = None))"
proof (induction dirs)
  case Nil
  show ?case by simp
next
  case (Cons d dirs)
  show ?case
  proof (cases "fs (d @ f)")
    case None
    have "(\<exists>i < length (d # dirs). fs ((d # dirs) ! i @ f) = Some content \<and>
              (\<forall>j < i. fs ((d # dirs) ! j @ f) = None))
        \<longleftrightarrow> (\<exists>i < length dirs. fs (dirs ! i @ f) = Some content \<and>
              (\<forall>j < i. fs (dirs ! j @ f) = None))"
      (is "?L \<longleftrightarrow> ?R")
    proof
      assume ?L
      then obtain i where i: "i < length (d # dirs)" "fs ((d # dirs) ! i @ f) = Some content"
        "\<forall>j < i. fs ((d # dirs) ! j @ f) = None" by blast
      from i(2) None obtain k where k: "i = Suc k" by (cases i) auto
      have "\<forall>j < k. fs (dirs ! j @ f) = None"
      proof (intro allI impI)
        fix j assume "j < k"
        then have "Suc j < i" using k by simp
        with i(3) have "fs ((d # dirs) ! Suc j @ f) = None" by blast
        then show "fs (dirs ! j @ f) = None" by simp
      qed
      with i(1,2) k show ?R by auto
    next
      assume ?R
      then obtain i where i: "i < length dirs" "fs (dirs ! i @ f) = Some content"
        "\<forall>j < i. fs (dirs ! j @ f) = None" by blast
      have "\<forall>j < Suc i. fs ((d # dirs) ! j @ f) = None"
      proof (intro allI impI)
        fix j assume "j < Suc i"
        then show "fs ((d # dirs) ! j @ f) = None"
          using None i(3) by (cases j) auto
      qed
      with i(1,2) show ?L by (intro exI [of _ "Suc i"]) simp
    qed
    with None Cons.IH show ?thesis by simp
  next
    case (Some c)
    have "(\<exists>i < length (d # dirs). fs ((d # dirs) ! i @ f) = Some content \<and>
              (\<forall>j < i. fs ((d # dirs) ! j @ f) = None)) \<longleftrightarrow> c = content"
      (is "?L \<longleftrightarrow> _")
    proof
      assume ?L
      then obtain i where i: "fs ((d # dirs) ! i @ f) = Some content"
        "\<forall>j < i. fs ((d # dirs) ! j @ f) = None" by blast
      have "i = 0"
      proof (rule ccontr)
        assume "i \<noteq> 0"
        then have "0 < i" by simp
        with i(2) have "fs ((d # dirs) ! 0 @ f) = None" by blast
        with Some show False by simp
      qed
      with i(1) Some show "c = content" by simp
    next
      assume "c = content"
      with Some show ?L by (intro exI [of _ 0]) simp
    qed
    with Some show ?thesis by auto
  qed
qed

definition documented_flags :: "string list" where
  "documented_flags = [''-Ifoo/bar/include'']"

definition documented_cpath :: string where
  "documented_cpath = ''/home/user/include:/usr/local/group/include''"

definition headers_in_cpath :: filesystem where
  "headers_in_cpath =
     [''/home/user/include/x.h'' \<mapsto> ''int first;'',
      ''/usr/local/group/include/x.h'' \<mapsto> ''int second;'']"

text \<open>
  Claim C5 against the code.  The header comment of the source gives
  \<^verbatim>\<open>CPATH=/home/user/include:/usr/local/group/include\<close> and \<^verbatim>\<open>-Ifoo/bar/include\<close> as its example
  and lists \<^verbatim>\<open>/home/user/include/x.h\<close> as the third file tried.  The fields of \<^verbatim>\<open>CPATH\<close> do not pass
  through \<^verbatim>\<open>dirName\<close>, so the third prefix is \<^verbatim>\<open>/home/user/include\<close> and the third file tried is
  \<^verbatim>\<open>/home/user/includex.h\<close>: with \<^verbatim>\<open>x.h\<close> in both directories of \<^verbatim>\<open>CPATH\<close>, \<^verbatim>\<open>openFile\<close> finds neither.
\<close>

theorem cpath_directories_not_searched:
  "assemble_dirs documented_flags (Some documented_cpath)
     = Some [''./'', ''foo/bar/include/'', ''/home/user/include'', ''/usr/local/group/include''] \<and>
   headers_in_cpath ''/home/user/include/x.h'' = Some ''int first;'' \<and>
   headers_in_cpath ''/usr/local/group/include/x.h'' = Some ''int second;'' \<and>
   openFile headers_in_cpath
     [''./'', ''foo/bar/include/'', ''/home/user/include'', ''/usr/local/group/include''] ''x.h''
     = None"
  by (simp add: assemble_dirs_def documented_flags_def documented_cpath_def dirName_def
      headers_in_cpath_def)

subsection \<open>Illegal extensions\<close>

lemma seed_illegal:
  assumes "\<forall>a \<in> set pre. \<not> illegal_extension (snd (parseFile a))"
    and "illegal_extension (snd (parseFile arg))"
  shows "seed (pre @ arg # post) g = Inl (Exit (- 1) []
           (''Illegal extension: '' @ snd (parseFile arg) @ '' - must be .c, .y or .l'' @ [NL]))"
  using assms by (induction pre arbitrary: g) simp_all

lemma parseFile_foo_txt: "parseFile ''foo.txt'' = (''foo'', ''txt'')"
  by (simp add: parseFile_def)

lemma parseFile_foo_c: "parseFile ''foo.c'' = (''foo'', ''c'')"
  by (simp add: parseFile_def)

lemma startup_two_illegal:
  "startup None None [''a.txt'', ''b.md'']
     = Inl (Exit (- 1) [] (''Illegal extension: txt - must be .c, .y or .l'' @ [NL]))"
  by (simp add: startup_def number_of_threads_def is_I_flag_def assemble_dirs_def
      parseFile_def illegal_extension_def)

text \<open>
  Claim C8, as the specification states it, fails, in two ways.  With \<^verbatim>\<open>CRAWLER_THREADS=abc\<close> and
  the argument \<^verbatim>\<open>foo.txt\<close> the program ends in \<^verbatim>\<open>std::terminate\<close> before it looks at the argument,
  and the line about the extension is not written.  With the arguments \<^verbatim>\<open>a.txt b.md\<close> the program
  returns at \<^verbatim>\<open>a.txt\<close>, and no line about the extension \<^verbatim>\<open>md\<close> is written.
\<close>

theorem illegal_extension_reported_counterexample:
  "illegal_extension (snd (parseFile ''foo.txt'')) \<and>
   main_run Map.empty None (Some ''abc'') [''foo.txt''] (Terminate Invalid_argument) \<and>
   \<not> main_run Map.empty None (Some ''abc'') [''foo.txt'']
        (Exit (- 1) [] (''Illegal extension: txt - must be .c, .y or .l'' @ [NL])) \<and>
   illegal_extension (snd (parseFile ''b.md'')) \<and>
   main_run Map.empty None None [''a.txt'', ''b.md'']
     (Exit (- 1) [] (''Illegal extension: txt - must be .c, .y or .l'' @ [NL])) \<and>
   \<not> main_run Map.empty None None [''a.txt'', ''b.md'']
        (Exit (- 1) [] (''Illegal extension: md - must be .c, .y or .l'' @ [NL]))"
proof -
  have "number_of_threads (Some ''abc'') = Inl Invalid_argument"
    by (simp add: number_of_threads_def stoi_abc)
  then have "startup None (Some ''abc'') [''foo.txt''] = Inl (Terminate Invalid_argument)"
    by (rule startup_terminate)
  then have 1: "main_run Map.empty None (Some ''abc'') [''foo.txt''] out
      \<longleftrightarrow> out = Terminate Invalid_argument" for out
    by (rule main_run_early_iff)
  have 2: "main_run Map.empty None None [''a.txt'', ''b.md''] out
      \<longleftrightarrow> out = Exit (- 1) [] (''Illegal extension: txt - must be .c, .y or .l'' @ [NL])" for out
    using startup_two_illegal by (rule main_run_early_iff)
  have "illegal_extension (snd (parseFile ''b.md''))"
    by (simp add: parseFile_def illegal_extension_def)
  then show ?thesis
    by (simp add: 1 2 parseFile_foo_txt illegal_extension_def)
qed

text \<open>
  Claim C8, amended.  Where the program gets past the environment and the search path
  (\<^verbatim>\<open>CRAWLER_THREADS\<close> absent or read by \<^verbatim>\<open>std::stoi\<close>, no \<^verbatim>\<open>-I\<close> flag without a directory), and
  \<open>arg\<close> is the first file argument whose extension is not \<^verbatim>\<open>c\<close>, \<^verbatim>\<open>y\<close> or \<^verbatim>\<open>l\<close>, the program ends
  before a thread is started and before a file is opened, whatever the file system: it
  returns \<open>-1\<close>, with the one line about the extension of \<open>arg\<close> on standard error and nothing
  on standard output.
\<close>

theorem illegal_extension_reported:
  assumes "number_of_threads crawlerthreads = Inr n"
    and "assemble_dirs (takeWhile is_I_flag args) cpath = Some dirs"
    and "dropWhile is_I_flag args = pre @ arg # post"
    and "\<forall>a \<in> set pre. \<not> illegal_extension (snd (parseFile a))"
    and "illegal_extension (snd (parseFile arg))"
  shows "startup cpath crawlerthreads args = Inl (Exit (- 1) []
           (''Illegal extension: '' @ snd (parseFile arg) @ '' - must be .c, .y or .l'' @ [NL])) \<and>
         (main_run fs cpath crawlerthreads args out \<longleftrightarrow>
            out = Exit (- 1) []
              (''Illegal extension: '' @ snd (parseFile arg) @ '' - must be .c, .y or .l'' @ [NL]))"
proof -
  have "startup cpath crawlerthreads args = Inl (Exit (- 1) []
           (''Illegal extension: '' @ snd (parseFile arg) @ '' - must be .c, .y or .l'' @ [NL]))"
    using assms(1,2) seed_illegal [OF assms(4,5)]
    by (simp add: startup_def assms(3))
  then show ?thesis using main_run_early_iff by blast
qed

theorem illegal_extension_reported_witness:
  "number_of_threads None = Inr 2 \<and>
   assemble_dirs (takeWhile is_I_flag [''-Iinc'', ''foo.c'', ''bar.txt'', ''baz.md'']) None
     = Some [''./'', ''inc/''] \<and>
   dropWhile is_I_flag [''-Iinc'', ''foo.c'', ''bar.txt'', ''baz.md'']
     = [''foo.c''] @ ''bar.txt'' # [''baz.md''] \<and>
   \<not> illegal_extension (snd (parseFile ''foo.c'')) \<and>
   illegal_extension (snd (parseFile ''bar.txt'')) \<and>
   main_run Map.empty None None [''-Iinc'', ''foo.c'', ''bar.txt'', ''baz.md'']
     (Exit (- 1) [] (''Illegal extension: txt - must be .c, .y or .l'' @ [NL]))"
proof -
  have a: "number_of_threads None = Inr 2" by (simp add: number_of_threads_def)
  have b: "assemble_dirs (takeWhile is_I_flag [''-Iinc'', ''foo.c'', ''bar.txt'', ''baz.md'']) None
     = Some [''./'', ''inc/'']"
    by (simp add: is_I_flag_def assemble_dirs_def dirName_def)
  have c: "dropWhile is_I_flag [''-Iinc'', ''foo.c'', ''bar.txt'', ''baz.md'']
     = [''foo.c''] @ ''bar.txt'' # [''baz.md'']"
    by (simp add: is_I_flag_def)
  have p: "parseFile ''bar.txt'' = (''bar'', ''txt'')" by (simp add: parseFile_def)
  have d: "\<forall>a \<in> set [''foo.c'']. \<not> illegal_extension (snd (parseFile a))"
    by (simp add: parseFile_foo_c illegal_extension_def)
  have e: "illegal_extension (snd (parseFile ''bar.txt''))"
    by (simp add: p illegal_extension_def)
  from illegal_extension_reported [OF a b c d e, of Map.empty]
  have "main_run Map.empty None None [''-Iinc'', ''foo.c'', ''bar.txt'', ''baz.md'']
     (Exit (- 1) [] (''Illegal extension: txt - must be .c, .y or .l'' @ [NL]))"
    by (simp add: p)
  with a b c d e show ?thesis by simp
qed


subsection \<open>The steps of the threads\<close>

lemma worker_step_enabled:
  assumes "worker_step fs dirs i s = Some s'"
  shows "halted s = None" and "i < length (workers s)"
  using assms by (auto simp: worker_step_def split: if_splits)

lemma worker_step_cases [consumes 1, case_names wait size pop_empty pop signal getValue
    open_fail opened eof skip match bs_wait recorded bs_signal retire finished]:
  assumes "worker_step fs dirs i s = Some s'"
  obtains
    "workers s ! i = AtWait" "0 < threadlock s"
      "s' = goto i AtSize (s\<lparr>threadlock := threadlock s - 1\<rparr>)"
  | "workers s ! i = AtSize"
      "s' = goto i (if length (workQ s) > 0 then AtPop else AtRetire) s"
  | "workers s ! i = AtPop" "workQ s = []" "s' = s\<lparr>halted := Some Undefined\<rparr>"
  | f q where "workers s ! i = AtPop" "workQ s = f # q"
      "s' = goto i (AtSignal f) (s\<lparr>workQ := q\<rparr>)"
  | f where "workers s ! i = AtSignal f" "threadlock s \<le> 0"
      "s' = goto i (AtGetValue f) (s\<lparr>threadlock := threadlock s + 1\<rparr>)"
  | f where "workers s ! i = AtGetValue f"
      "s' = goto i (AtOpen f) (s\<lparr>theTable := snd (getValue (theTable s) f)\<rparr>)"
  | f where "workers s ! i = AtOpen f" "openFile fs dirs f = None"
      "s' = s\<lparr>halted := Some (Exit (- 1) [] (''Error opening '' @ f @ [NL]))\<rparr>"
  | f content where "workers s ! i = AtOpen f" "openFile fs dirs f = Some content"
      "s' = goto i (AtFgets f content) s"
  | f where "workers s ! i = AtFgets f []" "s' = goto i AtWait s"
  | f content buf rest where "workers s ! i = AtFgets f content" "content \<noteq> []"
      "fgets 4095 content = (buf, rest)" "scan_line buf = None"
      "s' = goto i (AtFgets f rest) s"
  | f content buf rest name where "workers s ! i = AtFgets f content" "content \<noteq> []"
      "fgets 4095 content = (buf, rest)" "scan_line buf = Some name"
      "s' = goto i (AtBsWait f name rest) s"
  | f name rest where "workers s ! i = AtBsWait f name rest" "0 < bs s"
      "s' = goto i (AtRecord f name rest) (s\<lparr>bs := bs s - 1\<rparr>)"
  | f name rest where "workers s ! i = AtRecord f name rest"
      "s' = goto i (AtBsSignal f rest) (record_include f name s)"
  | f rest where "workers s ! i = AtBsSignal f rest" "bs s \<le> 0"
      "s' = goto i (AtFgets f rest) (s\<lparr>bs := bs s + 1\<rparr>)"
  | "workers s ! i = AtRetire" "threadlock s \<le> 0"
      "s' = goto i AtDone (s\<lparr>threadlock := threadlock s + 1\<rparr>)"
  | "workers s ! i = AtDone" "s' = goto i Finished (s\<lparr>t_count := t_count s - 1\<rparr>)"
proof -
  from assms have e: "halted s = None" "i < length (workers s)"
    by (rule worker_step_enabled)+
  show thesis
  proof (cases "workers s ! i")
    case AtWait
    with assms e that(1) show ?thesis
      by (auto simp: worker_step_def sem_wait_def split: if_splits)
  next
    case AtSize
    with assms e that(2) show ?thesis
      by (auto simp: worker_step_def)
  next
    case AtPop
    with assms e that(3,4) show ?thesis
      by (cases "workQ s") (auto simp: worker_step_def)
  next
    case (AtSignal f)
    with assms e that(5) show ?thesis
      by (auto simp: worker_step_def sem_signal_def split: if_splits)
  next
    case (AtGetValue f)
    with assms e that(6) show ?thesis
      by (auto simp: worker_step_def)
  next
    case (AtOpen f)
    with assms e that(7,8) show ?thesis
      by (cases "openFile fs dirs f") (auto simp: worker_step_def)
  next
    case (AtFgets f content)
    show ?thesis
    proof (cases "content = []")
      case True
      with AtFgets assms e that(9) show ?thesis
        by (auto simp: worker_step_def)
    next
      case False
      obtain buf rest where b: "fgets 4095 content = (buf, rest)"
        by (cases "fgets 4095 content")
      with False AtFgets assms e that(10,11) show ?thesis
        by (cases "scan_line buf") (auto simp: worker_step_def)
    qed
  next
    case (AtBsWait f name rest)
    with assms e that(12) show ?thesis
      by (auto simp: worker_step_def sem_wait_def split: if_splits)
  next
    case (AtRecord f name rest)
    with assms e that(13) show ?thesis
      by (auto simp: worker_step_def)
  next
    case (AtBsSignal f rest)
    with assms e that(14) show ?thesis
      by (auto simp: worker_step_def sem_signal_def split: if_splits)
  next
    case AtRetire
    with assms e that(15) show ?thesis
      by (auto simp: worker_step_def sem_signal_def split: if_splits)
  next
    case AtDone
    with assms e that(16) show ?thesis
      by (auto simp: worker_step_def)
  next
    case Finished
    with assms e show ?thesis
      by (auto simp: worker_step_def)
  qed
qed

lemma crawl_steps_invariant:
  assumes "crawl_steps fs dirs s0 s" and "I s0"
    and "\<And>s i s'. I s \<Longrightarrow> worker_step fs dirs i s = Some s' \<Longrightarrow> I s'"
  shows "I s"
  using assms(1)
proof (induction rule: crawl_steps.induct)
  case start
  show ?case by (rule assms(2))
next
  case (step s' i s'')
  then show ?case using assms(3) by blast
qed





lemma record_include_fields [simp]:
  "threadlock (record_include f name s) = threadlock s"
  "bs (record_include f name s) = bs s"
  "workers (record_include f name s) = workers s"
  "halted (record_include f name s) = halted s"
  "t_count (record_include f name s) = t_count s"
  by (simp_all add: record_include_def Let_def)



lemma no_step_when_halted: "halted s \<noteq> None \<Longrightarrow> worker_step fs dirs j s = None"
  by (simp add: worker_step_def)



lemma crawl_steps_trans:
  assumes "crawl_steps fs dirs s1 s2" and "crawl_steps fs dirs s0 s1"
  shows "crawl_steps fs dirs s0 s2"
  using assms
proof (induction rule: crawl_steps.induct)
  case start
  then show ?case by simp
next
  case (step s' i s'')
  then show ?case by (blast intro: crawl_steps.step)
qed

definition seeded_foo_c :: globals where
  "seeded_foo_c = \<lparr>theTable = [''foo.o'' \<mapsto> [''foo.c''], ''foo.c'' \<mapsto> []], workQ = [''foo.c'']\<rparr>"







lemma startup_two_threads:
  "startup None None [''foo.c''] = Inr (2, [''./''], [''foo.c''], seeded_foo_c)"
  by (simp add: startup_def number_of_threads_def is_I_flag_def assemble_dirs_def
      parseFile_foo_c illegal_extension_def object_name_def insert_map_def seeded_foo_c_def)




subsection \<open>The entries of the targets\<close>

lemma parseFile_join:
  assumes "CHR ''.'' \<in> set a"
  shows "a = fst (parseFile a) @ CHR ''.'' # snd (parseFile a)"
proof -
  let ?P = "\<lambda>c. c \<noteq> CHR ''.''"
  define ext where "ext = rev (takeWhile ?P (rev a))"
  have "dropWhile ?P (rev a) \<noteq> []"
    using assms by (simp add: dropWhile_eq_Nil_conv)
  then obtain c r where d: "dropWhile ?P (rev a) = c # r"
    by (cases "dropWhile ?P (rev a)") auto
  have "\<not> ?P (hd (dropWhile ?P (rev a)))"
    using \<open>dropWhile ?P (rev a) \<noteq> []\<close> by (rule hd_dropWhile)
  with d have c: "c = CHR ''.''" by simp
  have "rev a = takeWhile ?P (rev a) @ dropWhile ?P (rev a)" by simp
  then have "rev (rev a) = rev (takeWhile ?P (rev a) @ CHR ''.'' # r)"
    using d c by simp
  then have a: "a = rev r @ CHR ''.'' # ext" by (simp add: ext_def)
  then have "take (length a - Suc (length ext)) a = rev r" by simp
  then have "parseFile a = (rev r, ext)"
    using assms unfolding parseFile_def ext_def Let_def by simp
  with a show ?thesis by simp
qed

lemma parseFile_no_dot: "CHR ''.'' \<notin> set a \<Longrightarrow> snd (parseFile a) = []"
  by (simp add: parseFile_def)

lemma last_of_legal:
  assumes "\<not> illegal_extension (snd (parseFile a))"
  shows "a \<noteq> [] \<and> last a \<noteq> CHR ''o''"
proof -
  from assms have e: "snd (parseFile a) = [CHR ''c''] \<or> snd (parseFile a) = [CHR ''y'']
      \<or> snd (parseFile a) = [CHR ''l'']"
    unfolding illegal_extension_def by blast
  have "CHR ''.'' \<in> set a"
  proof (rule ccontr)
    assume "CHR ''.'' \<notin> set a"
    then have "snd (parseFile a) = []" by (rule parseFile_no_dot)
    with e show False by simp
  qed
  then have j: "a = fst (parseFile a) @ CHR ''.'' # snd (parseFile a)" by (rule parseFile_join)
  from e consider "snd (parseFile a) = [CHR ''c'']" | "snd (parseFile a) = [CHR ''y'']"
    | "snd (parseFile a) = [CHR ''l'']" by blast
  then show ?thesis
  proof cases
    case 1
    with j have "a = fst (parseFile a) @ [CHR ''.'', CHR ''c'']" by simp
    then have "a \<noteq> [] \<and> last a = CHR ''c''" by (metis last_snoc append_assoc append_Cons append_Nil snoc_eq_iff_butlast)
    then show ?thesis by simp
  next
    case 2
    with j have "a = fst (parseFile a) @ [CHR ''.'', CHR ''y'']" by simp
    then have "a \<noteq> [] \<and> last a = CHR ''y''" by (metis last_snoc append_assoc append_Cons append_Nil snoc_eq_iff_butlast)
    then show ?thesis by simp
  next
    case 3
    with j have "a = fst (parseFile a) @ [CHR ''.'', CHR ''l'']" by simp
    then have "a \<noteq> [] \<and> last a = CHR ''l''" by (metis last_snoc append_assoc append_Cons append_Nil snoc_eq_iff_butlast)
    then show ?thesis by simp
  qed
qed

lemma object_name_not_legal:
  assumes "\<not> illegal_extension (snd (parseFile a))"
  shows "object_name b \<noteq> a"
proof
  assume "object_name b = a"
  then have "a = fst (parseFile b) @ [CHR ''.'', CHR ''o'']" by (simp add: object_name_def)
  then have "last a = CHR ''o''" by (metis last_snoc append_assoc append_Cons append_Nil)
  with last_of_legal [OF assms] show False by simp
qed

lemma insert_map_apply:
  "insert_map k v t x = (if x = k \<and> t k = None then Some v else t x)"
  by (simp add: insert_map_def split: option.splits)

lemma seed_legal:
  "seed files g = Inr g' \<Longrightarrow> a \<in> set files \<Longrightarrow> \<not> illegal_extension (snd (parseFile a))"
  by (induction files arbitrary: g) (auto split: if_splits)

lemma seed_workQ: "seed files g = Inr g' \<Longrightarrow> workQ g' = workQ g @ files"
  by (induction files arbitrary: g) (auto split: if_splits)

lemma seed_keeps:
  "seed files g = Inr g' \<Longrightarrow> theTable g k = Some v \<Longrightarrow> theTable g' k = Some v"
proof (induction files arbitrary: g)
  case Nil
  then show ?case by simp
next
  case (Cons x xs)
  let ?g = "g\<lparr>theTable := insert_map x [] (insert_map (object_name x) [x] (theTable g)),
              workQ := workQ g @ [x]\<rparr>"
  from Cons.prems(1) have s: "seed xs ?g = Inr g'" by (simp split: if_splits)
  have "theTable ?g k = Some v" using Cons.prems(2) by (auto simp: insert_map_apply)
  with s show ?case by (rule Cons.IH)
qed

lemma seed_finite:
  "seed files g = Inr g' \<Longrightarrow> finite (dom (theTable g)) \<Longrightarrow> finite (dom (theTable g'))"
proof (induction files arbitrary: g)
  case Nil
  then show ?case by simp
next
  case (Cons x xs)
  let ?g = "g\<lparr>theTable := insert_map x [] (insert_map (object_name x) [x] (theTable g)),
              workQ := workQ g @ [x]\<rparr>"
  from Cons.prems(1) have s: "seed xs ?g = Inr g'" by (simp split: if_splits)
  have "dom (theTable ?g) \<subseteq> insert x (insert (object_name x) (dom (theTable g)))"
    by (auto simp: insert_map_apply split: if_splits)
  then have "finite (dom (theTable ?g))"
    using Cons.prems(2) by (meson finite_insert finite_subset)
  with s show ?case by (rule Cons.IH)
qed

lemma seed_source_entry:
  assumes "seed files g = Inr g'" and "a \<in> set files"
    and "theTable g a = None \<or> theTable g a = Some []"
  shows "theTable g' a = Some []"
  using assms
proof (induction files arbitrary: g)
  case Nil
  then show ?case by simp
next
  case (Cons x xs)
  let ?g = "g\<lparr>theTable := insert_map x [] (insert_map (object_name x) [x] (theTable g)),
              workQ := workQ g @ [x]\<rparr>"
  from Cons.prems(1) have s: "seed xs ?g = Inr g'"
    and lx: "\<not> illegal_extension (snd (parseFile x))" by (simp_all split: if_splits)
  have la: "\<not> illegal_extension (snd (parseFile a))"
    using Cons.prems(1,2) by (rule seed_legal)
  have na: "object_name x \<noteq> a" using la by (rule object_name_not_legal)
  show ?case
  proof (cases "a = x")
    case True
    have "theTable ?g a = Some []"
      using Cons.prems(3) True na by (auto simp: insert_map_apply)
    with s show ?thesis by (rule seed_keeps)
  next
    case False
    with Cons.prems(2) have "a \<in> set xs" by simp
    moreover have "theTable ?g a = None \<or> theTable ?g a = Some []"
      using Cons.prems(3) False na by (auto simp: insert_map_apply)
    ultimately show ?thesis using s Cons.IH by blast
  qed
qed

lemma seed_object_entry:
  assumes "seed files g = Inr g'" and "a \<in> set files"
    and "theTable g (object_name a) = None"
    and "\<forall>b \<in> set files. object_name b = object_name a \<longrightarrow> b = a"
  shows "theTable g' (object_name a) = Some [a]"
  using assms
proof (induction files arbitrary: g)
  case Nil
  then show ?case by simp
next
  case (Cons x xs)
  let ?g = "g\<lparr>theTable := insert_map x [] (insert_map (object_name x) [x] (theTable g)),
              workQ := workQ g @ [x]\<rparr>"
  from Cons.prems(1) have s: "seed xs ?g = Inr g'"
    and lx: "\<not> illegal_extension (snd (parseFile x))" by (simp_all split: if_splits)
  have nx: "object_name a \<noteq> x" using lx by (rule object_name_not_legal)
  show ?case
  proof (cases "object_name x = object_name a")
    case True
    with Cons.prems(4) have "x = a" by simp
    then have "theTable ?g (object_name a) = Some [a]"
      using Cons.prems(3) nx by (simp add: insert_map_apply)
    with s show ?thesis by (rule seed_keeps)
  next
    case False
    then have "a \<noteq> x" by auto
    with Cons.prems(2) have "a \<in> set xs" by simp
    moreover have "theTable ?g (object_name a) = None"
      using Cons.prems(3) False nx by (simp add: insert_map_apply)
    moreover have "\<forall>b \<in> set xs. object_name b = object_name a \<longrightarrow> b = a"
      using Cons.prems(4) by simp
    ultimately show ?thesis using s Cons.IH by blast
  qed
qed

lemma startup_seed:
  assumes "startup cpath crawlerthreads args = Inr (n, dirs, files, g)"
  shows "files = dropWhile is_I_flag args \<and> seed files \<lparr>theTable = Map.empty, workQ = []\<rparr> = Inr g
         \<and> number_of_threads crawlerthreads = Inr n
         \<and> assemble_dirs (takeWhile is_I_flag args) cpath = Some dirs"
  using assms by (auto simp: startup_def split: sum.splits option.splits)

fun pc_file :: "pc \<Rightarrow> string option" where
  "pc_file (AtSignal f) = Some f"
| "pc_file (AtGetValue f) = Some f"
| "pc_file (AtOpen f) = Some f"
| "pc_file (AtFgets f rest) = Some f"
| "pc_file (AtBsWait f name rest) = Some f"
| "pc_file (AtRecord f name rest) = Some f"
| "pc_file (AtBsSignal f rest) = Some f"
| "pc_file p = None"

definition keeps_entry :: "string \<Rightarrow> string list \<Rightarrow> crawl \<Rightarrow> bool" where
  "keeps_entry k v s \<longleftrightarrow>
     theTable s k = Some v \<and> k \<notin> set (workQ s) \<and>
     (\<forall>i < length (workers s). pc_file (workers s ! i) \<noteq> Some k)"

lemma keeps_entry_update:
  assumes "keeps_entry k v s"
    and "workers s' = (workers s)[i := p]" and "pc_file p \<noteq> Some k"
    and "theTable s' k = Some v" and "k \<notin> set (workQ s')"
  shows "keeps_entry k v s'"
  unfolding keeps_entry_def
proof (intro conjI allI impI)
  show "theTable s' k = Some v" "k \<notin> set (workQ s')" by (rule assms)+
next
  fix a assume a: "a < length (workers s')"
  show "pc_file (workers s' ! a) \<noteq> Some k"
  proof (cases "a = i")
    case True
    with a assms(2,3) show ?thesis by simp
  next
    case False
    with a assms(1,2) show ?thesis by (simp add: keeps_entry_def)
  qed
qed

lemma getValue_keeps: "t k = Some v \<Longrightarrow> snd (getValue t f) k = Some v"
  by (auto simp: getValue_def split: option.splits)

lemma record_include_keeps:
  assumes "theTable s k = Some v" and "f \<noteq> k"
  shows "theTable (record_include f name s) k = Some v"
  using assms
  by (auto simp: record_include_def push_back_entry_def insert_map_apply Let_def)

lemma record_include_queue:
  assumes "theTable s k = Some v" and "k \<notin> set (workQ s)"
  shows "k \<notin> set (workQ (record_include f name s))"
  using assms
  by (auto simp: record_include_def push_back_entry_def Let_def split: if_splits)

lemma keeps_entry_step:
  assumes inv: "keeps_entry k v s" and st: "worker_step fs dirs i s = Some s'"
  shows "keeps_entry k v s'"
proof -
  from st have i: "i < length (workers s)" by (rule worker_step_enabled)
  from inv have t: "theTable s k = Some v" and q: "k \<notin> set (workQ s)"
    and w: "pc_file (workers s ! i) \<noteq> Some k"
    using i unfolding keeps_entry_def by blast+
  from st show ?thesis
  proof (cases rule: worker_step_cases)
    case wait
    with t q show ?thesis by (intro keeps_entry_update [OF inv, where p = AtSize and i = i]) simp_all
  next
    case size
    with t q show ?thesis
      by (intro keeps_entry_update [OF inv,
            where p = "if length (workQ s) > 0 then AtPop else AtRetire" and i = i]) simp_all
  next
    case pop_empty
    with inv show ?thesis by (simp add: keeps_entry_def)
  next
    case (pop f r)
    with t q show ?thesis
      by (intro keeps_entry_update [OF inv, where p = "AtSignal f" and i = i]) auto
  next
    case (signal f)
    with t q w show ?thesis
      by (intro keeps_entry_update [OF inv, where p = "AtGetValue f" and i = i]) simp_all
  next
    case (getValue f)
    with t q w show ?thesis
      by (intro keeps_entry_update [OF inv, where p = "AtOpen f" and i = i])
         (simp_all add: getValue_keeps)
  next
    case (open_fail f)
    with inv show ?thesis by (simp add: keeps_entry_def)
  next
    case (opened f content)
    with t q w show ?thesis
      by (intro keeps_entry_update [OF inv, where p = "AtFgets f content" and i = i]) simp_all
  next
    case (eof f)
    with t q w show ?thesis
      by (intro keeps_entry_update [OF inv, where p = AtWait and i = i]) simp_all
  next
    case (skip f content buf rest)
    with t q w show ?thesis
      by (intro keeps_entry_update [OF inv, where p = "AtFgets f rest" and i = i]) simp_all
  next
    case (match f content buf rest name)
    with t q w show ?thesis
      by (intro keeps_entry_update [OF inv, where p = "AtBsWait f name rest" and i = i]) simp_all
  next
    case (bs_wait f name rest)
    with t q w show ?thesis
      by (intro keeps_entry_update [OF inv, where p = "AtRecord f name rest" and i = i]) simp_all
  next
    case (recorded f name rest)
    with w have fk: "f \<noteq> k" by simp
    from recorded w show ?thesis
      by (intro keeps_entry_update [OF inv, where p = "AtBsSignal f rest" and i = i])
         (simp_all add: record_include_keeps [OF t fk] record_include_queue [OF t q])
  next
    case (bs_signal f rest)
    with t q w show ?thesis
      by (intro keeps_entry_update [OF inv, where p = "AtFgets f rest" and i = i]) simp_all
  next
    case retire
    with t q show ?thesis
      by (intro keeps_entry_update [OF inv, where p = AtDone and i = i]) simp_all
  next
    case finished
    with t q show ?thesis
      by (intro keeps_entry_update [OF inv, where p = Finished and i = i]) simp_all
  qed
qed

lemma keeps_entry_start:
  "theTable g k = Some v \<Longrightarrow> k \<notin> set (workQ g) \<Longrightarrow> keeps_entry k v (start_crawl n g)"
  by (simp add: keeps_entry_def start_crawl_def)

lemma printDependencies_grows:
  assumes "printDependencies t P Q out = Some r"
  shows "t \<subseteq>\<^sub>m fst r \<and> (\<exists>ext. snd (snd (snd r)) = out @ ext)"
proof (rule printDependencies.raw_induct
    [where P = "\<lambda>t P Q out r. t \<subseteq>\<^sub>m fst r \<and> (\<exists>ext. snd (snd (snd r)) = out @ ext)"
       and t = t and printed = P and toProcess = Q and out = out and y = r])
  show "printDependencies t P Q out = Some r" by (rule assms)
next
  fix pd :: "table \<Rightarrow> string set \<Rightarrow> string list \<Rightarrow> string list \<Rightarrow> (table \<times> closure) option"
    and t P Q out r
  assume ih: "\<And>t P Q out r. pd t P Q out = Some r \<Longrightarrow>
      t \<subseteq>\<^sub>m fst r \<and> (\<exists>ext. snd (snd (snd r)) = out @ ext)"
    and eq: "(case Q of [] \<Rightarrow> Some (t, P, Q, out)
      | name # rest \<Rightarrow>
          (case getValue t name of
             (ll, t') \<Rightarrow>
               (case print_entry ll (P, rest, out) of
                  (printed', toProcess', out') \<Rightarrow> pd t' printed' toProcess' out'))) = Some r"
  show "t \<subseteq>\<^sub>m fst r \<and> (\<exists>ext. snd (snd (snd r)) = out @ ext)"
  proof (cases Q)
    case Nil
    with eq have "r = (t, P, [], out)" by simp
    then show ?thesis by simp
  next
    case (Cons n rest)
    obtain ll t' where g: "getValue t n = (ll, t')" by (cases "getValue t n")
    obtain P' Q' out' where e: "print_entry ll (P, rest, out) = (P', Q', out')"
      by (cases "print_entry ll (P, rest, out)")
    from eq Cons g e have "pd t' P' Q' out' = Some r" by simp
    then have i: "t' \<subseteq>\<^sub>m fst r \<and> (\<exists>ext. snd (snd (snd r)) = out' @ ext)" by (rule ih)
    have "t \<subseteq>\<^sub>m t'" using getValue_map_le [of t n] g by simp
    moreover have "out' = out @ fresh P ll" using e by (simp add: print_entry_fresh)
    ultimately show ?thesis using i by (auto intro: map_le_trans)
  qed
qed

lemma print_targets_sources:
  assumes "print_targets t files = Some ls"
    and "\<forall>a \<in> set files. t (object_name a) = Some [a] \<and> object_name a \<noteq> a"
  shows "list_all2 (\<lambda>a l. fst l = object_name a \<and> take 1 (snd l) = [a]) files ls"
  using assms
proof (induction files arbitrary: t ls)
  case Nil
  then show ?case by simp
next
  case (Cons a files)
  from Cons.prems(2) have ta: "t (object_name a) = Some [a]" and na: "object_name a \<noteq> a"
    by simp_all
  from Cons.prems(1) obtain t' P Q out ls' where
    pd: "printDependencies t {object_name a} [object_name a] [] = Some (t', P, Q, out)"
    and pt: "print_targets t' files = Some ls'" and ls: "ls = (object_name a, out) # ls'"
    by (auto split: option.splits)
  have "getValue t (object_name a) = ([a], t)" using ta by (simp add: getValue_def)
  moreover have "fresh {object_name a} [a] = [a]" using na by auto
  ultimately have "printDependencies t {object_name a} [object_name a] []
      = printDependencies t ({object_name a} \<union> set [a]) [a] [a]"
    by (simp add: printDependencies_Cons)
  with pd have "printDependencies t ({object_name a} \<union> set [a]) [a] [a] = Some (t', P, Q, out)"
    by simp
  from printDependencies_grows [OF this] have le: "t \<subseteq>\<^sub>m t'" and "\<exists>ext. out = [a] @ ext"
    by simp_all
  then have hd: "take 1 out = [a]" by auto
  have "\<forall>b \<in> set files. t' (object_name b) = Some [b] \<and> object_name b \<noteq> b"
  proof
    fix b assume "b \<in> set files"
    with Cons.prems(2) have "t (object_name b) = Some [b]" "object_name b \<noteq> b" by simp_all
    with le show "t' (object_name b) = Some [b] \<and> object_name b \<noteq> b"
      by (metis domI map_le_def)
  qed
  with pt have "list_all2 (\<lambda>a l. fst l = object_name a \<and> take 1 (snd l) = [a]) files ls'"
    by (rule Cons.IH)
  with hd ls show ?case by simp
qed

lemma object_name_inj:
  "object_name b = object_name a \<Longrightarrow> fst (parseFile b) = fst (parseFile a)"
  by (simp add: object_name_def)

definition shared_root_globals :: globals where
  "shared_root_globals =
     \<lparr>theTable = [''foo.o'' \<mapsto> [''foo.c''], ''foo.c'' \<mapsto> [], ''foo.y'' \<mapsto> []],
      workQ = [''foo.c'', ''foo.y'']\<rparr>"

lemma parseFile_foo_y: "parseFile ''foo.y'' = (''foo'', ''y'')"
  by (simp add: parseFile_def)

lemma parseFile_bar_y: "parseFile ''bar.y'' = (''bar'', ''y'')"
  by (simp add: parseFile_def)

lemma startup_shared_root:
  "startup None None [''foo.c'', ''foo.y'']
     = Inr (2, [''./''], [''foo.c'', ''foo.y''], shared_root_globals)"
  by (simp add: startup_def number_of_threads_def is_I_flag_def assemble_dirs_def
      parseFile_foo_c parseFile_foo_y illegal_extension_def object_name_def insert_map_def
      shared_root_globals_def)

text \<open>
  Claim C6, as the specification states it, fails: for the arguments \<^verbatim>\<open>foo.c foo.y\<close> the second
  \<^verbatim>\<open>insert\<close> of \<^verbatim>\<open>foo.o\<close> finds the key present and changes nothing, so that \<^verbatim>\<open>foo.o\<close> is mapped to
  the list of \<^verbatim>\<open>foo.c\<close> alone and the line of the target of \<^verbatim>\<open>foo.y\<close> begins with \<^verbatim>\<open>foo.c\<close>.
\<close>

theorem targets_seeded_counterexample:
  "startup None None [''foo.c'', ''foo.y'']
     = Inr (2, [''./''], [''foo.c'', ''foo.y''], shared_root_globals) \<and>
   object_name ''foo.y'' = ''foo.o'' \<and>
   theTable shared_root_globals ''foo.o'' = Some [''foo.c''] \<and>
   theTable shared_root_globals ''foo.o'' \<noteq> Some [''foo.y''] \<and>
   print_targets (theTable shared_root_globals) [''foo.c'', ''foo.y'']
     = Some [(''foo.o'', [''foo.c'']), (''foo.o'', [''foo.c''])]"
  by (simp add: startup_shared_root object_name_def parseFile_foo_y parseFile_foo_c
      shared_root_globals_def printDependencies_Cons printDependencies_Nil getValue_def)

text \<open>
  Claim C6, amended.  Where the program gets to its threads and no two file arguments have
  the same root name with different extensions: when the threads start, the queue holds the
  file arguments in their order and the table maps the object name of every file argument to
  the list of that argument alone and the argument itself to the empty list; the threads never
  change the entry of an object name; and so every line that step 5 prints, from whatever
  state the threads have reached, is the line of the object name of its argument and begins
  with that argument.
\<close>

theorem targets_seeded:
  assumes st: "startup cpath crawlerthreads args = Inr (n, dirs, files, g)"
    and roots: "\<forall>a \<in> set files. \<forall>b \<in> set files.
                  fst (parseFile a) = fst (parseFile b) \<longrightarrow> a = b"
  shows "workQ g = files \<and>
         (\<forall>a \<in> set files. theTable g (object_name a) = Some [a] \<and> theTable g a = Some []) \<and>
         (\<forall>s ls. crawl_steps fs dirs (start_crawl n g) s \<and>
                  print_targets (theTable s) files = Some ls \<longrightarrow>
            list_all2 (\<lambda>a l. fst l = object_name a \<and> take 1 (snd l) = [a]) files ls)"
proof -
  from st have sd: "seed files \<lparr>theTable = Map.empty, workQ = []\<rparr> = Inr g"
    using startup_seed by blast
  have q: "workQ g = files" using seed_workQ [OF sd] by simp
  have legal: "\<not> illegal_extension (snd (parseFile a))" if "a \<in> set files" for a
    using sd that by (rule seed_legal)
  have src: "theTable g a = Some []" if "a \<in> set files" for a
    using sd that by (rule seed_source_entry) simp
  have obj: "theTable g (object_name a) = Some [a]" if a: "a \<in> set files" for a
  proof (rule seed_object_entry [OF sd a])
    show "theTable \<lparr>theTable = Map.empty, workQ = []\<rparr> (object_name a) = None" by simp
    show "\<forall>b \<in> set files. object_name b = object_name a \<longrightarrow> b = a"
      using roots a object_name_inj by blast
  qed
  have out: "list_all2 (\<lambda>a l. fst l = object_name a \<and> take 1 (snd l) = [a]) files ls"
    if r: "crawl_steps fs dirs (start_crawl n g) s"
      and p: "print_targets (theTable s) files = Some ls" for s ls
  proof -
    have "theTable s (object_name a) = Some [a] \<and> object_name a \<noteq> a" if a: "a \<in> set files" for a
    proof -
      have ne: "object_name a \<notin> set (workQ g)"
        using q legal object_name_not_legal by blast
      have "keeps_entry (object_name a) [a] s"
        using r keeps_entry_start [OF obj [OF a] ne] keeps_entry_step
        by (rule crawl_steps_invariant)
      then have "theTable s (object_name a) = Some [a]" by (simp add: keeps_entry_def)
      moreover have "object_name a \<noteq> a" using legal [OF a] by (rule object_name_not_legal)
      ultimately show ?thesis by simp
    qed
    with p show ?thesis by (intro print_targets_sources) blast+
  qed
  from q src obj out show ?thesis by blast
qed

definition two_targets :: globals where
  "two_targets =
     \<lparr>theTable = [''foo.o'' \<mapsto> [''foo.c''], ''foo.c'' \<mapsto> [], ''bar.o'' \<mapsto> [''bar.y''],
                  ''bar.y'' \<mapsto> []],
      workQ = [''foo.c'', ''bar.y'']\<rparr>"

lemma startup_two_targets:
  "startup None None [''-Iinc'', ''foo.c'', ''bar.y'']
     = Inr (2, [''./'', ''inc/''], [''foo.c'', ''bar.y''], two_targets)"
  by (simp add: startup_def number_of_threads_def is_I_flag_def assemble_dirs_def dirName_def
      parseFile_foo_c parseFile_bar_y illegal_extension_def object_name_def insert_map_def
      two_targets_def)

theorem targets_seeded_witness:
  "startup None None [''-Iinc'', ''foo.c'', ''bar.y'']
     = Inr (2, [''./'', ''inc/''], [''foo.c'', ''bar.y''], two_targets) \<and>
   fst (parseFile ''foo.c'') \<noteq> fst (parseFile ''bar.y'') \<and>
   workQ two_targets = [''foo.c'', ''bar.y''] \<and>
   theTable two_targets (object_name ''foo.c'') = Some [''foo.c''] \<and>
   theTable two_targets ''foo.c'' = Some [] \<and>
   theTable two_targets (object_name ''bar.y'') = Some [''bar.y''] \<and>
   theTable two_targets ''bar.y'' = Some [] \<and>
   print_targets (theTable (start_crawl 2 two_targets)) [''foo.c'', ''bar.y'']
     = Some [(''foo.o'', [''foo.c'']), (''bar.o'', [''bar.y''])]"
proof -
  have r: "\<forall>a \<in> set [''foo.c'', ''bar.y'']. \<forall>b \<in> set [''foo.c'', ''bar.y''].
             fst (parseFile a) = fst (parseFile b) \<longrightarrow> a = b"
    by (simp add: parseFile_foo_c parseFile_bar_y)
  have p: "print_targets (theTable (start_crawl 2 two_targets)) [''foo.c'', ''bar.y'']
     = Some [(''foo.o'', [''foo.c'']), (''bar.o'', [''bar.y''])]"
    by (simp add: start_crawl_def two_targets_def object_name_def parseFile_foo_c
        parseFile_bar_y printDependencies_Cons printDependencies_Nil getValue_def)
  from targets_seeded [OF startup_two_targets r, of Map.empty]
  have "workQ two_targets = [''foo.c'', ''bar.y'']"
    "theTable two_targets (object_name ''foo.c'') = Some [''foo.c'']"
    "theTable two_targets ''foo.c'' = Some []"
    "theTable two_targets (object_name ''bar.y'') = Some [''bar.y'']"
    "theTable two_targets ''bar.y'' = Some []"
    by simp_all
  with startup_two_targets p show ?thesis
    by (simp add: parseFile_foo_c parseFile_bar_y)
qed


subsection \<open>The tables of the program\<close>

lemma record_include_finite:
  "finite (dom (theTable s)) \<Longrightarrow> finite (dom (theTable (record_include f name s)))"
  by (simp add: record_include_def push_back_entry_def insert_map_def Let_def
      split: option.splits)

lemma table_finite_step:
  assumes "finite (dom (theTable s))" and "worker_step fs dirs i s = Some s'"
  shows "finite (dom (theTable s'))"
  using assms(2)
proof (cases rule: worker_step_cases)
  case (getValue f)
  with assms(1) show ?thesis by (simp add: getValue_finite)
next
  case (recorded f name rest)
  with assms(1) show ?thesis by (simp add: record_include_finite)
qed (use assms(1) in simp_all)

lemma startup_finite:
  assumes "startup cpath crawlerthreads args = Inr (n, dirs, files, g)"
  shows "finite (dom (theTable g))"
proof -
  from assms have "seed files \<lparr>theTable = Map.empty, workQ = []\<rparr> = Inr g"
    using startup_seed by blast
  then show ?thesis by (rule seed_finite) simp
qed

lemma crawl_table_finite:
  assumes "startup cpath crawlerthreads args = Inr (n, dirs, files, g)"
    and "crawl_steps fs dirs (start_crawl n g) s"
  shows "finite (dom (theTable s))"
proof -
  have "finite (dom (theTable (start_crawl n g)))"
    using startup_finite [OF assms(1)] by (simp add: start_crawl_def)
  with assms(2) show ?thesis
    using table_finite_step by (rule crawl_steps_invariant)
qed

lemma print_targets_returns:
  "finite (dom t) \<Longrightarrow> \<exists>ls. print_targets t files = Some ls"
proof (induction files arbitrary: t)
  case Nil
  show ?case by simp
next
  case (Cons a files)
  from traversal_run [OF Cons.prems, of "object_name a"] obtain t' P' out where
    r: "printDependencies t {object_name a} [object_name a] [] = Some (t', P', [], out)"
    and f: "finite (dom t')"
    by blast
  from Cons.IH [OF f] obtain ls where "print_targets t' files = Some ls" by blast
  with r show ?case by simp
qed

text \<open>
  The tables that the program builds are finite, so step 5 returns from every state that the
  threads can reach: a run in which every thread returns ends with the lines printed.
\<close>

lemma printing_returns:
  assumes "startup cpath crawlerthreads args = Inr (n, dirs, files, g)"
    and "crawl_steps fs dirs (start_crawl n g) s"
    and "halted s = None" and "list_all (\<lambda>p. p = Finished) (workers s)"
  shows "\<exists>ls. print_targets (theTable s) files = Some ls \<and>
           main_run fs cpath crawlerthreads args (Exit 0 (render ls) [])"
proof -
  have "finite (dom (theTable s))" using assms(1,2) by (rule crawl_table_finite)
  then obtain ls where "print_targets (theTable s) files = Some ls"
    using print_targets_returns by blast
  with assms show ?thesis by (blast intro: main_run.finish)
qed

subsection \<open>A thread that runs alone\<close>

text \<open>
  The steps of a thread that no other thread interrupts add up to the functions of the
  source: from \<^verbatim>\<open>openFile\<close> to \<^verbatim>\<open>fclose\<close> they do what \<open>process\<close> does, and one turn of the loop
  of the thread pops a name and processes it.
\<close>

lemma crawl_steps_step1:
  assumes "worker_step fs dirs i s = Some s'" and "crawl_steps fs dirs s' s''"
  shows "crawl_steps fs dirs s s''"
proof -
  have "crawl_steps fs dirs s s'"
    using crawl_steps.start assms(1) by (rule crawl_steps.step)
  with assms(2) show ?thesis by (rule crawl_steps_trans)
qed

lemma process_line_fields [simp]:
  "threadlock (process_line f buf s) = threadlock s"
  "bs (process_line f buf s) = bs s"
  "workers (process_line f buf s) = workers s"
  "halted (process_line f buf s) = halted s"
  "t_count (process_line f buf s) = t_count s"
  by (simp_all add: process_line_def split: option.splits)

lemma record_include_goto:
  "record_include f name (goto i p s) = goto i p (record_include f name s)"
  by (simp add: record_include_def goto_def Let_def)

lemma process_line_goto:
  "process_line f buf (goto i p s) = goto i p (process_line f buf s)"
  by (simp add: process_line_def record_include_goto split: option.splits)

lemma goto_goto [simp]: "goto i p (goto i p' s) = goto i p s"
  by (simp add: goto_def)

lemma process_lines_workers:
  "workers (foldl (\<lambda>g buf. process_line f buf g) s bufs) = workers s"
  by (induction bufs arbitrary: s) simp_all

text \<open>One line, by the thread alone.\<close>

lemma line_by_steps:
  assumes "halted s = None" and "i < length (workers s)" and "bs s = 1"
    and "content \<noteq> []" and "fgets 4095 content = (buf, rest)"
  shows "crawl_steps fs dirs (goto i (AtFgets f content) s)
           (goto i (AtFgets f rest) (process_line f buf s))"
proof (cases "scan_line buf")
  case None
  have "worker_step fs dirs i (goto i (AtFgets f content) s)
      = Some (goto i (AtFgets f rest) (process_line f buf s))"
    using assms None by (simp add: worker_step_def process_line_def)
  then show ?thesis using crawl_steps.start by (rule crawl_steps_step1)
next
  case (Some name)
  let ?s1 = "goto i (AtBsWait f name rest) s"
  let ?s2 = "goto i (AtRecord f name rest) (s\<lparr>bs := 0\<rparr>)"
  let ?s3 = "goto i (AtBsSignal f rest) (record_include f name (s\<lparr>bs := 0\<rparr>))"
  let ?s4 = "goto i (AtFgets f rest) (record_include f name s)"
  have 1: "worker_step fs dirs i (goto i (AtFgets f content) s) = Some ?s1"
    using assms Some by (simp add: worker_step_def)
  have 2: "worker_step fs dirs i ?s1 = Some ?s2"
    using assms by (simp add: worker_step_def sem_wait_def goto_def)
  have 3: "worker_step fs dirs i ?s2 = Some ?s3"
    using assms by (simp add: worker_step_def record_include_goto)
  have "record_include f name (s\<lparr>bs := 0\<rparr>)\<lparr>bs := 1\<rparr> = record_include f name s"
    using assms(3) by (simp add: record_include_def Let_def)
  then have 4: "worker_step fs dirs i ?s3 = Some ?s4"
    using assms by (simp add: worker_step_def sem_signal_def goto_def)
  have "crawl_steps fs dirs (goto i (AtFgets f content) s) ?s4"
    by (rule crawl_steps_step1 [OF 1 crawl_steps_step1 [OF 2 crawl_steps_step1
          [OF 3 crawl_steps_step1 [OF 4 crawl_steps.start]]]])
  then show ?thesis using Some by (simp add: process_line_def)
qed

lemma lines_by_steps:
  assumes "halted s = None" and "i < length (workers s)" and "bs s = 1"
  shows "crawl_steps fs dirs (goto i (AtFgets f content) s)
           (goto i AtWait (foldl (\<lambda>g buf. process_line f buf g) s (fgets_lines content)))"
  using assms
proof (induction content arbitrary: s rule: fgets_lines.induct)
  case 1
  have "worker_step fs dirs i (goto i (AtFgets f []) s) = Some (goto i AtWait s)"
    using 1 by (simp add: worker_step_def)
  then show ?case using crawl_steps.start by (simp add: crawl_steps_step1)
next
  case (2 c cs)
  obtain buf rest where b: "fgets 4095 (c # cs) = (buf, rest)"
    by (cases "fgets 4095 (c # cs)")
  have "crawl_steps fs dirs (goto i (AtFgets f (c # cs)) s)
      (goto i (AtFgets f rest) (process_line f buf s))"
    using 2(2,3,4) _ b by (rule line_by_steps) simp
  moreover have "crawl_steps fs dirs (goto i (AtFgets f rest) (process_line f buf s))
      (goto i AtWait (foldl (\<lambda>g buf. process_line f buf g) (process_line f buf s)
         (fgets_lines rest)))"
    using 2(2,3,4) by (intro 2(1) [OF b [symmetric]]) simp_all
  ultimately have "crawl_steps fs dirs (goto i (AtFgets f (c # cs)) s)
      (goto i AtWait (foldl (\<lambda>g buf. process_line f buf g) (process_line f buf s)
         (fgets_lines rest)))"
    using crawl_steps_trans by blast
  then show ?case using b by simp
qed

text \<open>\<^verbatim>\<open>process\<close>, by the thread alone.\<close>

lemma process_by_steps:
  assumes "halted s = None" and "i < length (workers s)" and "bs s = 1"
    and "process fs dirs f s = Inr s'"
  shows "crawl_steps fs dirs (goto i (AtOpen f) s) (goto i AtWait s')"
proof -
  from assms(4) obtain content where o: "openFile fs dirs f = Some content"
    and s': "s' = foldl (\<lambda>g buf. process_line f buf g) s (fgets_lines content)"
    by (auto simp: process_def split: option.splits)
  have "worker_step fs dirs i (goto i (AtOpen f) s) = Some (goto i (AtFgets f content) s)"
    using assms(1,2) o by (simp add: worker_step_def)
  moreover have "crawl_steps fs dirs (goto i (AtFgets f content) s) (goto i AtWait s')"
    unfolding s' using assms(1,2,3) by (rule lines_by_steps)
  ultimately show ?thesis by (rule crawl_steps_step1)
qed

text \<open>One turn of the loop of a thread that runs alone, and its leaving the loop.\<close>

lemma turn_by_steps:
  assumes "halted s = None" and "i < length (workers s)" and "workers s ! i = AtWait"
    and "threadlock s = 1" and "bs s = 1" and "workQ s = f # q"
    and "process fs dirs f (s\<lparr>workQ := q, theTable := snd (getValue (theTable s) f)\<rparr>) = Inr s'"
  shows "crawl_steps fs dirs s s'"
proof -
  let ?s1 = "goto i AtSize (s\<lparr>threadlock := 0\<rparr>)"
  let ?s2 = "goto i AtPop (s\<lparr>threadlock := 0\<rparr>)"
  let ?s3 = "goto i (AtSignal f) (s\<lparr>threadlock := 0, workQ := q\<rparr>)"
  let ?s4 = "goto i (AtGetValue f) (s\<lparr>workQ := q\<rparr>)"
  let ?t = "s\<lparr>workQ := q, theTable := snd (getValue (theTable s) f)\<rparr>"
  have 1: "worker_step fs dirs i s = Some ?s1"
    using assms by (simp add: worker_step_def sem_wait_def)
  have 2: "worker_step fs dirs i ?s1 = Some ?s2"
    using assms by (simp add: worker_step_def)
  have 3: "worker_step fs dirs i ?s2 = Some ?s3"
    using assms by (simp add: worker_step_def goto_def)
  have "s\<lparr>threadlock := 0, workQ := q, threadlock := 1\<rparr> = s\<lparr>workQ := q\<rparr>"
    using assms(4) by simp
  then have 4: "worker_step fs dirs i ?s3 = Some ?s4"
    using assms by (simp add: worker_step_def sem_signal_def goto_def)
  have 5: "worker_step fs dirs i ?s4 = Some (goto i (AtOpen f) ?t)"
    using assms by (simp add: worker_step_def goto_def)
  have "crawl_steps fs dirs (goto i (AtOpen f) ?t) (goto i AtWait s')"
    using assms by (intro process_by_steps) simp_all
  moreover have "workers s' = workers s"
    using assms(7) by (auto simp: process_def process_lines_workers split: option.splits)
  then have "workers s' ! i = AtWait" using assms(3) by simp
  then have "(workers s')[i := AtWait] = workers s'"
    using list_update_id [of "workers s'" i] by simp
  then have "goto i AtWait s' = s'" by (simp add: goto_def)
  ultimately have "crawl_steps fs dirs (goto i (AtOpen f) ?t) s'" by simp
  then show ?thesis
    by (rule crawl_steps_step1 [OF 1 crawl_steps_step1 [OF 2 crawl_steps_step1
          [OF 3 crawl_steps_step1 [OF 4 crawl_steps_step1 [OF 5]]]]])
qed

lemma leave_by_steps:
  assumes "halted s = None" and "i < length (workers s)" and "workers s ! i = AtWait"
    and "threadlock s = 1" and "workQ s = []"
  shows "crawl_steps fs dirs s (goto i Finished (s\<lparr>t_count := t_count s - 1\<rparr>))"
proof -
  let ?s1 = "goto i AtSize (s\<lparr>threadlock := 0\<rparr>)"
  let ?s2 = "goto i AtRetire (s\<lparr>threadlock := 0\<rparr>)"
  let ?s3 = "goto i AtDone s"
  have 1: "worker_step fs dirs i s = Some ?s1"
    using assms by (simp add: worker_step_def sem_wait_def)
  have 2: "worker_step fs dirs i ?s1 = Some ?s2"
    using assms by (simp add: worker_step_def)
  have "s\<lparr>threadlock := 0, threadlock := 1\<rparr> = s" using assms(4) by simp
  then have 3: "worker_step fs dirs i ?s2 = Some ?s3"
    using assms by (simp add: worker_step_def sem_signal_def goto_def)
  have 4: "worker_step fs dirs i ?s3
      = Some (goto i Finished (s\<lparr>t_count := t_count s - 1\<rparr>))"
    using assms by (simp add: worker_step_def goto_def)
  show ?thesis
    by (rule crawl_steps_step1 [OF 1 crawl_steps_step1 [OF 2 crawl_steps_step1
          [OF 3 crawl_steps_step1 [OF 4 crawl_steps.start]]]])
qed

text \<open>
  The example of the header comment of the source and of the specification: \<^verbatim>\<open>foo.c\<close> includes
  \<^verbatim>\<open>inc1.h\<close>, which includes \<^verbatim>\<open>inc2.h\<close> and \<^verbatim>\<open>inc3.h\<close>.  The program can print
  \<^verbatim>\<open>foo.o: foo.c inc1.h inc2.h inc3.h\<close>.
\<close>

definition scenario_files :: filesystem where
  "scenario_files =
     [''./foo.c'' \<mapsto> include_line ''inc1.h'',
      ''./inc1.h'' \<mapsto> include_line ''inc2.h'' @ include_line ''inc3.h'',
      ''./inc2.h'' \<mapsto> [], ''./inc3.h'' \<mapsto> []]"

definition scenario_state :: "table \<Rightarrow> string list \<Rightarrow> crawl" where
  "scenario_state t q =
     \<lparr>theTable = t, workQ = q, threadlock = 1, bs = 1, t_count = 2,
      workers = [AtWait, AtWait], halted = None\<rparr>"

definition scenario_table :: table where
  "scenario_table =
     [''foo.o'' \<mapsto> [''foo.c''], ''foo.c'' \<mapsto> [''inc1.h''], ''inc1.h'' \<mapsto> [''inc2.h''],
      ''inc2.h'' \<mapsto> [], ''inc1.h'' \<mapsto> [''inc2.h'', ''inc3.h''], ''inc3.h'' \<mapsto> []]"

lemma start_scenario:
  "start_crawl 2 seeded_foo_c
     = scenario_state [''foo.o'' \<mapsto> [''foo.c''], ''foo.c'' \<mapsto> []] [''foo.c'']"
  by (simp add: start_crawl_def seeded_foo_c_def scenario_state_def numeral_2_eq_2)

lemma scenario_turn:
  assumes "process scenario_files [''./''] f
             (scenario_state t (f # q)\<lparr>workQ := q, theTable := snd (getValue t f)\<rparr>)
           = Inr (scenario_state t' q')"
  shows "crawl_steps scenario_files [''./''] (scenario_state t (f # q)) (scenario_state t' q')"
proof (rule turn_by_steps [where i = 0 and f = f and q = q])
  show "process scenario_files [''./''] f
     (scenario_state t (f # q)
        \<lparr>workQ := q, theTable := snd (getValue (theTable (scenario_state t (f # q))) f)\<rparr>)
     = Inr (scenario_state t' q')"
    using assms by (simp add: scenario_state_def)
qed (simp_all add: scenario_state_def)

lemmas scenario_eval =
  process_def scenario_files_def include_line_def process_line_def scan_line_def c_str_def
  isspace_def record_include_def push_back_entry_def getValue_def insert_map_def
  scenario_state_def

lemma scenario_crawl:
  "crawl_steps scenario_files [''./''] (start_crawl 2 seeded_foo_c)
     (scenario_state scenario_table [])"
proof -
  let ?t1 = "[''foo.o'' \<mapsto> [''foo.c''], ''foo.c'' \<mapsto> [''inc1.h''], ''inc1.h'' \<mapsto> []]"
  have 1: "crawl_steps scenario_files [''./'']
      (scenario_state [''foo.o'' \<mapsto> [''foo.c''], ''foo.c'' \<mapsto> []] [''foo.c''])
      (scenario_state ?t1 [''inc1.h''])"
    by (rule scenario_turn) (simp add: scenario_eval)
  have 2: "crawl_steps scenario_files [''./''] (scenario_state ?t1 [''inc1.h''])
      (scenario_state scenario_table [''inc2.h'', ''inc3.h''])"
    by (rule scenario_turn) (simp add: scenario_eval scenario_table_def)
  have 3: "crawl_steps scenario_files [''./'']
      (scenario_state scenario_table [''inc2.h'', ''inc3.h''])
      (scenario_state scenario_table [''inc3.h''])"
    by (rule scenario_turn) (simp add: scenario_eval scenario_table_def)
  have 4: "crawl_steps scenario_files [''./''] (scenario_state scenario_table [''inc3.h''])
      (scenario_state scenario_table [])"
    by (rule scenario_turn) (simp add: scenario_eval scenario_table_def)
  from 1 2 3 4 show ?thesis
    unfolding start_scenario using crawl_steps_trans by blast
qed

lemma both_leave:
  "crawl_steps fs dirs (scenario_state t [])
     (scenario_state t [] \<lparr>t_count := 0, workers := [Finished, Finished]\<rparr>)"
proof -
  let ?s = "scenario_state t []"
  let ?s1 = "goto 0 Finished (?s\<lparr>t_count := t_count ?s - 1\<rparr>)"
  have "crawl_steps fs dirs ?s ?s1"
    by (rule leave_by_steps) (simp_all add: scenario_state_def)
  moreover have "crawl_steps fs dirs ?s1 (goto 1 Finished (?s1\<lparr>t_count := t_count ?s1 - 1\<rparr>))"
    by (rule leave_by_steps) (simp_all add: scenario_state_def goto_def)
  moreover have "goto 1 Finished (?s1\<lparr>t_count := t_count ?s1 - 1\<rparr>)
      = ?s\<lparr>t_count := 0, workers := [Finished, Finished]\<rparr>"
    by (simp add: scenario_state_def goto_def)
  ultimately show ?thesis using crawl_steps_trans by metis
qed

lemma scenario_output:
  "main_run scenario_files None None [''foo.c'']
     (Exit 0 (''foo.o: foo.c inc1.h inc2.h inc3.h'' @ [NL]) [])"
proof -
  let ?s = "scenario_state scenario_table [] \<lparr>t_count := 0, workers := [Finished, Finished]\<rparr>"
  have r: "crawl_steps scenario_files [''./''] (start_crawl 2 seeded_foo_c) ?s"
    using both_leave scenario_crawl by (rule crawl_steps_trans)
  have p: "print_targets (theTable ?s) [''foo.c'']
      = Some [(''foo.o'', [''foo.c'', ''inc1.h'', ''inc2.h'', ''inc3.h''])]"
    by (simp add: scenario_state_def scenario_table_def object_name_def parseFile_def
        printDependencies_Cons printDependencies_Nil getValue_def)
  have "main_run scenario_files None None [''foo.c'']
      (Exit 0 (render [(''foo.o'', [''foo.c'', ''inc1.h'', ''inc2.h'', ''inc3.h''])]) [])"
    using startup_two_threads r
  proof (rule main_run.finish)
    show "halted ?s = None" "list_all (\<lambda>p. p = Finished) (workers ?s)"
      by (simp_all add: scenario_state_def)
    show "print_targets (theTable ?s) [''foo.c'']
      = Some [(''foo.o'', [''foo.c'', ''inc1.h'', ''inc2.h'', ''inc3.h''])]"
      by (rule p)
  qed
  then show ?thesis by (simp add: render_def print_line_def)
qed






subsection \<open>The two semaphores\<close>














subsection \<open>The files that are referenced, and the files that the threads open\<close>

text \<open>
  \<open>scanned_names content\<close>: the names that the loop of \<^verbatim>\<open>process\<close> collects from a file with
  that content, in their order.

  \<open>referenced fs dirs files x\<close> follows the words of the specification: the name \<open>x\<close> is given
  on the command line, or it is found as an include in a file that is itself referenced and
  that the program scans.  The program scans what it can open, and it never opens the object
  name of a target, which is a key of the table before any thread starts: what such a name
  would include, if there were a file of that name, is not found.
\<close>

definition scanned_names :: "string \<Rightarrow> string list" where
  "scanned_names content = List.map_filter scan_line (fgets_lines content)"

inductive referenced :: "filesystem \<Rightarrow> string list \<Rightarrow> string list \<Rightarrow> string \<Rightarrow> bool"
  for fs :: filesystem and dirs files :: "string list" where
  given: "a \<in> set files \<Longrightarrow> referenced fs dirs files a"
| found: "referenced fs dirs files p \<Longrightarrow> p \<notin> object_name ` set files \<Longrightarrow>
          openFile fs dirs p = Some content \<Longrightarrow> x \<in> set (scanned_names content) \<Longrightarrow>
          referenced fs dirs files x"




























subsection \<open>Every run of the threads is finite\<close>


















subsection \<open>A file that cannot be opened\<close>












end
